theory Spec2Isabelle
  imports
    Complex_Main
    "HOL-Library.List_Lexorder"
    "HOL-Library.Product_Lexorder"
    "HOL-Library.Sublist"
begin

section \<open>Subtitle frame segmentation (src/tools/segment\_frames.py)\<close>

text \<open>
  The embedding follows \<^verbatim>\<open>segment_frames.py\<close> function by function. What lies
  outside the program is a parameter: the directory listing (\<^verbatim>\<open>os.listdir\<close>) is a
  list of file names and the image decoder (\<^verbatim>\<open>Image.open\<close>) is a function
  from a file name to an array, \<open>None\<close> when decoding raises.

  Conventions of the model:
  \<^item> numpy's floating-point arithmetic is idealised: array elements and thresholds are
    real numbers, a float result is \<open>real option\<close> with \<open>None\<close> for NaN (the mean
    of an empty array), and a comparison with NaN is false, as in Python;
  \<^item> an array is its shape and its elements in row-major order;
  \<^item> a Python \<^verbatim>\<open>str\<close> (file names, the video identifier) is the list of its Unicode
    code points, \<open>ustr\<close>; the Unicode database, which decides what \<^verbatim>\<open>\d\<close> matches
    and what \<^verbatim>\<open>int\<close> reads, is a parameter;
  \<^item> every \<^verbatim>\<open>raise\<close> is a value of \<open>error\<close>.
\<close>

subsection \<open>Strings and exceptions\<close>

type_synonym ustr = "nat list"

text \<open>A Python literal of ASCII characters.\<close>

definition str :: "string \<Rightarrow> ustr" where
  "str s = map of_char s"

text \<open>The exceptions of a run: the builtin \<^verbatim>\<open>ValueError\<close> of line 97 with its message,
  the exception of the image decoder for a file, numpy's \<^verbatim>\<open>ValueError\<close> for shapes
  that do not fit, and the \<^verbatim>\<open>TypeError\<close> of a subscript on \<^verbatim>\<open>None\<close>.\<close>

datatype error =
    ValueError ustr
  | ImageOpenError ustr
  | BroadcastValueError
  | NoneSubscriptTypeError

text \<open>The name of the exception's class; the decoder's exception has a class of its own.\<close>

fun exception_class :: "error \<Rightarrow> string option" where
  "exception_class (ValueError msg) = Some ''ValueError''"
| "exception_class (ImageOpenError filename) = None"
| "exception_class BroadcastValueError = Some ''ValueError''"
| "exception_class NoneSubscriptTypeError = Some ''TypeError''"

subsection \<open>Arrays and the two numpy measures\<close>

record ndarray =
  shape :: "nat list"
  data :: "real list"

type_synonym npfloat = "real option"

text \<open>\<^verbatim>\<open>np.mean(a)\<close> over all elements; NaN for an empty array.\<close>

definition np_mean :: "real list \<Rightarrow> npfloat" where
  "np_mean xs = (if xs = [] then None else Some (sum_list xs / real (length xs)))"

text \<open>\<^verbatim>\<open>np.std(a)\<close>: the root of the mean squared deviation from the mean
  (numpy's default, \<^verbatim>\<open>ddof=0\<close>). The argument is \<open>None\<close> when the array holds
  NaN entries.\<close>

definition np_std :: "real list option \<Rightarrow> npfloat" where
  "np_std a =
     (case a of
        None \<Rightarrow> None
      | Some xs \<Rightarrow>
          (case np_mean xs of
             None \<Rightarrow> None
           | Some m \<Rightarrow>
               (case np_mean (map (\<lambda>x. \<bar>x - m\<bar> ^ 2) xs) of
                  None \<Rightarrow> None
                | Some v \<Rightarrow> Some (sqrt v))))"

text \<open>\<^verbatim>\<open>np.mean(img, axis=2)\<close> on a 3-dimensional array of shape \<open>[h, w, c]\<close>:
  one mean per pixel over its \<open>c\<close> consecutive channel values. With \<open>c = 0\<close>
  every entry of the result is NaN.\<close>

definition np_mean_axis2 :: "nat \<Rightarrow> nat \<Rightarrow> nat \<Rightarrow> real list \<Rightarrow> real list option" where
  "np_mean_axis2 h w c xs =
     (if c = 0 then None
      else Some (map (\<lambda>p. sum_list (take c (drop (p * c) xs)) / real c) [0..<h * w]))"

definition float_lt :: "npfloat \<Rightarrow> real \<Rightarrow> bool" where
  "float_lt x t = (case x of None \<Rightarrow> False | Some v \<Rightarrow> v < t)"

text \<open>\<^verbatim>\<open>calculate_frame_difference\<close>: the mean absolute difference of the elements.
  For unequal shapes numpy raises, unless the shapes broadcast; broadcasting is not
  modelled, and the model raises for every pair of unequal shapes (the frames of one
  video have one size).\<close>

definition calculate_frame_difference :: "ndarray \<Rightarrow> ndarray \<Rightarrow> error + npfloat" where
  "calculate_frame_difference img1 img2 =
     (if shape img1 = shape img2
      then Inr (np_mean (map (\<lambda>(a, b). \<bar>a - b\<bar>) (zip (data img1) (data img2))))
      else Inl BroadcastValueError)"

definition gray :: "ndarray \<Rightarrow> real list option" where
  "gray img =
     (if length (shape img) = 3
      then np_mean_axis2 (shape img ! 0) (shape img ! 1) (shape img ! 2) (data img)
      else Some (data img))"

definition is_blank_frame :: "ndarray \<Rightarrow> real \<Rightarrow> bool" where
  "is_blank_frame img blank_threshold = float_lt (np_std (gray img)) blank_threshold"

text \<open>The default arguments of \<^verbatim>\<open>segment_frames\<close> (and of the command line).\<close>

definition default_diff_threshold :: real where
  "default_diff_threshold = 15"

definition default_blank_threshold :: real where
  "default_blank_threshold = 30"

definition default_min_segment_duration :: int where
  "default_min_segment_duration = 1"

subsection \<open>The frame loader\<close>

text \<open>
  The Unicode database is a parameter \<open>todecimal\<close>, CPython's
  \<^verbatim>\<open>Py_UNICODE_TODECIMAL\<close>: the decimal digit value of a code point, or \<open>-1\<close> when
  the code point is not a decimal digit. In a \<^verbatim>\<open>str\<close> pattern \<^verbatim>\<open>\d\<close> matches every
  code point with a decimal value, not only the ASCII digits.
\<close>

definition decimal_table :: "(nat \<Rightarrow> int) \<Rightarrow> bool" where
  "decimal_table todecimal = (\<forall>c. - 1 \<le> todecimal c \<and> todecimal c \<le> 9)"

definition is_digit :: "(nat \<Rightarrow> int) \<Rightarrow> nat \<Rightarrow> bool" where
  "is_digit todecimal c = (0 \<le> todecimal c)"

text \<open>Python's \<^verbatim>\<open>int\<close> on a string of decimal digits: each digit counts with its
  decimal value.\<close>

definition int_of_digits :: "(nat \<Rightarrow> int) \<Rightarrow> ustr \<Rightarrow> int" where
  "int_of_digits todecimal ds = foldl (\<lambda>a c. 10 * a + todecimal c) 0 ds"

text \<open>
  \<^verbatim>\<open>re.compile(rf'^{re.escape(video_id)}_(\d{4})\.jpg$').match(filename)\<close>: the result
  is group 1. The pattern is a literal prefix, exactly four digits, a literal suffix
  and the end of the string, where Python's \<^verbatim>\<open>$\<close> also matches just before a final
  newline (code point 10).
\<close>

definition pattern_match :: "(nat \<Rightarrow> int) \<Rightarrow> ustr \<Rightarrow> ustr \<Rightarrow> ustr option" where
  "pattern_match todecimal video_id filename =
     (let prefix = video_id @ str ''_'';
          rest = drop (length prefix) filename;
          grp = take 4 rest;
          tail = drop 4 rest
      in if take (length prefix) filename = prefix \<and> length grp = 4
            \<and> list_all (is_digit todecimal) grp
            \<and> (tail = str ''.jpg'' \<or> tail = str ''.jpg'' @ [10])
         then Some grp else None)"

text \<open>Lines 87 to 99: the matching names of the sorted listing with their frame
  numbers, sorted as Python sorts tuples.\<close>

definition find_frames :: "(nat \<Rightarrow> int) \<Rightarrow> ustr list \<Rightarrow> ustr \<Rightarrow> (int \<times> ustr) list" where
  "find_frames todecimal listing video_id =
     sort (List.map_filter
       (\<lambda>filename. case pattern_match todecimal video_id filename of
                      None \<Rightarrow> None
                    | Some grp \<Rightarrow> Some (int_of_digits todecimal grp, filename))
       (sort listing))"

subsection \<open>The segmenter\<close>

record segment =
  video_id :: ustr
  segment_id :: int
  start_time :: int
  end_time :: int
  start_frame :: int
  end_frame :: int
  frame_count :: int
  representative_frame :: ustr

record loop_state =
  segments :: "segment list"
  current_segment :: "segment option"
  prev_img :: "ndarray option"

text \<open>\<^verbatim>\<open>if current_segment is not None: segments.append(current_segment)\<close>\<close>

definition append_current :: "loop_state \<Rightarrow> segment list" where
  "append_current st =
     (case current_segment st of None \<Rightarrow> segments st | Some cs \<Rightarrow> segments st @ [cs])"

text \<open>Lines 125 to 130: the comparison with the previous frame.\<close>

definition is_same_subtitle :: "real \<Rightarrow> real \<Rightarrow> ndarray option \<Rightarrow> ndarray \<Rightarrow> error + bool" where
  "is_same_subtitle diff_threshold blank_threshold prev curr_img =
     (case prev of
        None \<Rightarrow> Inr False
      | Some p \<Rightarrow>
          if \<not> is_blank_frame p blank_threshold
          then (case calculate_frame_difference p curr_img of
                  Inl e \<Rightarrow> Inl e
                | Inr diff \<Rightarrow> Inr (float_lt diff diff_threshold))
          else Inr False)"

text \<open>Lines 107 to 154: one iteration of the loop.\<close>

definition loop_body ::
  "(ustr \<Rightarrow> ndarray option) \<Rightarrow> ustr \<Rightarrow> real \<Rightarrow> real \<Rightarrow> loop_state \<Rightarrow> int \<times> ustr
     \<Rightarrow> error + loop_state" where
  "loop_body load vid diff_threshold blank_threshold st ff =
     (case ff of (frame_num, filename) \<Rightarrow>
        (case load filename of
           None \<Rightarrow> Inl (ImageOpenError filename)
         | Some curr_img \<Rightarrow>
             let timestamp = frame_num - 1 in
             if is_blank_frame curr_img blank_threshold
             then Inr \<lparr>segments = append_current st, current_segment = None,
                       prev_img = Some curr_img\<rparr>
             else
               (case is_same_subtitle diff_threshold blank_threshold (prev_img st) curr_img of
                  Inl e \<Rightarrow> Inl e
                | Inr same \<Rightarrow>
                    if \<not> same
                    then
                      let segs = append_current st in
                      Inr \<lparr>segments = segs,
                           current_segment = Some
                             \<lparr>video_id = vid,
                              segment_id = int (length segs) + 1,
                              start_time = timestamp,
                              end_time = timestamp,
                              start_frame = frame_num,
                              end_frame = frame_num,
                              frame_count = 1,
                              representative_frame = filename\<rparr>,
                           prev_img = Some curr_img\<rparr>
                    else
                      (case current_segment st of
                         None \<Rightarrow> Inl NoneSubscriptTypeError
                       | Some cs \<Rightarrow>
                           Inr \<lparr>segments = segments st,
                                current_segment = Some
                                  (cs\<lparr>end_time := timestamp,
                                      end_frame := frame_num,
                                      frame_count := frame_count cs + 1\<rparr>),
                                prev_img = Some curr_img\<rparr>))))"

fun frame_loop ::
  "(ustr \<Rightarrow> ndarray option) \<Rightarrow> ustr \<Rightarrow> real \<Rightarrow> real \<Rightarrow> loop_state \<Rightarrow> (int \<times> ustr) list
     \<Rightarrow> error + loop_state" where
  "frame_loop load vid dt bt st [] = Inr st"
| "frame_loop load vid dt bt st (ff # rest) =
     (case loop_body load vid dt bt st ff of
        Inl e \<Rightarrow> Inl e
      | Inr st' \<Rightarrow> frame_loop load vid dt bt st' rest)"

definition initial_state :: loop_state where
  "initial_state = \<lparr>segments = [], current_segment = None, prev_img = None\<rparr>"

text \<open>Lines 102 to 158: the forward pass, the segment list before the duration filter.\<close>

definition raw_segments ::
  "(ustr \<Rightarrow> ndarray option) \<Rightarrow> ustr \<Rightarrow> real \<Rightarrow> real \<Rightarrow> (int \<times> ustr) list
     \<Rightarrow> error + segment list" where
  "raw_segments load vid dt bt frame_files =
     (case frame_loop load vid dt bt initial_state frame_files of
        Inl e \<Rightarrow> Inl e
      | Inr st \<Rightarrow> Inr (append_current st))"

text \<open>Lines 160 to 164.\<close>

definition filter_segments :: "int \<Rightarrow> segment list \<Rightarrow> segment list" where
  "filter_segments min_segment_duration segs =
     filter (\<lambda>seg. end_time seg - start_time seg + 1 \<ge> min_segment_duration) segs"

text \<open>Lines 96 to 167: everything after the frame list is built.\<close>

definition segment_frame_files ::
  "(ustr \<Rightarrow> ndarray option) \<Rightarrow> ustr \<Rightarrow> real \<Rightarrow> real \<Rightarrow> int \<Rightarrow> (int \<times> ustr) list
     \<Rightarrow> error + segment list" where
  "segment_frame_files load vid diff_threshold blank_threshold min_segment_duration frame_files =
     (if frame_files = []
      then Inl (ValueError (str ''No frames found for video_id: '' @ vid))
      else
        (case raw_segments load vid diff_threshold blank_threshold frame_files of
           Inl e \<Rightarrow> Inl e
         | Inr segs \<Rightarrow> Inr (filter_segments min_segment_duration segs)))"

definition segment_frames ::
  "(nat \<Rightarrow> int) \<Rightarrow> ustr list \<Rightarrow> (ustr \<Rightarrow> ndarray option) \<Rightarrow> ustr \<Rightarrow> real \<Rightarrow> real \<Rightarrow> int
     \<Rightarrow> error + segment list" where
  "segment_frames todecimal listing load vid diff_threshold blank_threshold
       min_segment_duration =
     segment_frame_files load vid diff_threshold blank_threshold min_segment_duration
       (find_frames todecimal listing vid)"


section \<open>Notions used to state the properties\<close>

text \<open>The dictionary of lines 138 to 147, for a segment opened after \<open>k\<close> others.\<close>

definition new_segment :: "ustr \<Rightarrow> nat \<Rightarrow> int \<Rightarrow> ustr \<Rightarrow> segment" where
  "new_segment vid k frame_num filename =
     \<lparr>video_id = vid, segment_id = int k + 1, start_time = frame_num - 1,
      end_time = frame_num - 1, start_frame = frame_num, end_frame = frame_num,
      frame_count = 1, representative_frame = filename\<rparr>"

text \<open>The update of lines 150 to 152.\<close>

definition extend_segment :: "segment \<Rightarrow> int \<Rightarrow> segment" where
  "extend_segment cs frame_num =
     cs\<lparr>end_time := frame_num - 1, end_frame := frame_num, frame_count := frame_count cs + 1\<rparr>"

text \<open>The classification of a frame of the list: its image is loaded and is blank.\<close>

definition frame_blank :: "(ustr \<Rightarrow> ndarray option) \<Rightarrow> real \<Rightarrow> int \<times> ustr \<Rightarrow> bool" where
  "frame_blank load bt ff =
     (case load (snd ff) of None \<Rightarrow> False | Some img \<Rightarrow> is_blank_frame img bt)"

text \<open>A frame number lies in the frame range of a segment.\<close>

definition in_range :: "int \<Rightarrow> segment \<Rightarrow> bool" where
  "in_range n s = (start_frame s \<le> n \<and> n \<le> end_frame s)"

text \<open>A frame sequence: the frame numbers are strictly ascending.\<close>

definition ascending :: "(int \<times> ustr) list \<Rightarrow> bool" where
  "ascending frame_files = sorted_wrt (\<lambda>a b. fst a < fst b) frame_files"

subsection \<open>Invariants of the loop\<close>

text \<open>The invariants speak about the segments emitted so far followed by the open one,
  \<open>append_current st\<close>, and about \<open>done\<close>, the frames already processed.\<close>

definition ids_inv :: "loop_state \<Rightarrow> bool" where
  "ids_inv st = (map segment_id (append_current st) = map int [1..<Suc (length (append_current st))])"

definition times_inv :: "loop_state \<Rightarrow> bool" where
  "times_inv st =
     list_all (\<lambda>s. start_time s = start_frame s - 1 \<and> end_time s = end_frame s - 1)
       (append_current st)"

text \<open>A segment ends no later than the last processed frame and counts the processed
  frames in its range.\<close>

definition seg_ok :: "(int \<times> ustr) list \<Rightarrow> segment \<Rightarrow> bool" where
  "seg_ok done s =
     (start_frame s \<le> end_frame s \<and> end_frame s \<le> fst (last done) \<and>
      frame_count s = int (length (filter (\<lambda>ff. in_range (fst ff) s) done)))"

text \<open>The previous image is the one of the last processed frame, and a segment is open
  exactly when that frame is not blank; it then ends at that frame.\<close>

definition link_ok ::
  "(ustr \<Rightarrow> ndarray option) \<Rightarrow> real \<Rightarrow> (int \<times> ustr) list \<Rightarrow> loop_state \<Rightarrow> bool" where
  "link_ok load bt done st =
     (if done = [] then append_current st = [] \<and> prev_img st = None
      else prev_img st = load (snd (last done)) \<and>
           (case current_segment st of
              None \<Rightarrow> frame_blank load bt (last done)
            | Some cs \<Rightarrow> \<not> frame_blank load bt (last done) \<and> end_frame cs = fst (last done)))"

text \<open>Some segment of the list has the frame in its range.\<close>

definition covered :: "segment list \<Rightarrow> int \<times> ustr \<Rightarrow> bool" where
  "covered segs ff = list_ex (in_range (fst ff)) segs"

text \<open>The invariant for ascending frame numbers: ranges are disjoint and in order, and the
  processed frames that are covered are the non-blank ones.\<close>

definition pass_inv ::
  "(ustr \<Rightarrow> ndarray option) \<Rightarrow> real \<Rightarrow> (int \<times> ustr) list \<Rightarrow> loop_state \<Rightarrow> bool" where
  "pass_inv load bt done st =
     (link_ok load bt done st \<and>
      list_all (seg_ok done) (append_current st) \<and>
      sorted_wrt (\<lambda>a b. end_frame a < start_frame b) (append_current st) \<and>
      list_all (\<lambda>ff. covered (append_current st) ff = (\<not> frame_blank load bt ff)) done)"

text \<open>For sorted frame numbers: a segment does not end before it starts.\<close>

definition span_inv :: "(int \<times> ustr) list \<Rightarrow> loop_state \<Rightarrow> bool" where
  "span_inv done st =
     list_all (\<lambda>s. done \<noteq> [] \<and> start_frame s \<le> end_frame s \<and> end_frame s \<le> fst (last done))
       (append_current st)"

text \<open>For consecutive frame numbers: the count is the length of the range.\<close>

definition contig_inv :: "(int \<times> ustr) list \<Rightarrow> loop_state \<Rightarrow> bool" where
  "contig_inv done st =
     ((case current_segment st of
         None \<Rightarrow> True
       | Some cs \<Rightarrow> done \<noteq> [] \<and> end_frame cs = fst (last done)) \<and>
      list_all (\<lambda>s. frame_count s = end_frame s - start_frame s + 1) (append_current st))"

text \<open>After a non-blank frame a segment is open.\<close>

definition open_inv :: "real \<Rightarrow> loop_state \<Rightarrow> bool" where
  "open_inv bt st =
     (case prev_img st of
        None \<Rightarrow> True
      | Some p \<Rightarrow> is_blank_frame p bt \<or> current_segment st \<noteq> None)"

text \<open>Two runs of the loop on the same frames with different difference thresholds.\<close>

definition lockstep :: "loop_state \<Rightarrow> loop_state \<Rightarrow> bool" where
  "lockstep st1 st2 =
     (prev_img st1 = prev_img st2 \<and>
      (current_segment st1 = None) = (current_segment st2 = None) \<and>
      length (append_current st2) \<le> length (append_current st1))"


subsection \<open>The specification's notions\<close>

text \<open>The mean squared deviation from the mean.\<close>

definition variance :: "real list \<Rightarrow> real" where
  "variance xs =
     sum_list (map (\<lambda>x. (x - sum_list xs / real (length xs)) ^ 2) xs) / real (length xs)"

text \<open>The filter in the words of the specification: drop any emitted segment whose
  duration \<open>end_time - start_time + 1\<close> is less than the minimum, keep the others.\<close>

fun drop_short_spec :: "int \<Rightarrow> segment list \<Rightarrow> segment list" where
  "drop_short_spec m [] = []"
| "drop_short_spec m (s # ss) =
     (if end_time s - start_time s + 1 < m then drop_short_spec m ss
      else s # drop_short_spec m ss)"

text \<open>The specification's luminance: the per-pixel mean over the channels when the
  array is 3-dimensional, the raw values otherwise.\<close>

definition luminance_spec :: "ndarray \<Rightarrow> real list" where
  "luminance_spec img =
     (case shape img of
        [h, w, c] \<Rightarrow> map (\<lambda>p. (\<Sum>k<c. data img ! (p * c + k)) / real c) [0..<h * w]
      | _ \<Rightarrow> data img)"

text \<open>The specification's standard deviation, as the root of the mean of the squares
  minus the square of the mean.\<close>

definition std_dev_spec :: "real list \<Rightarrow> real" where
  "std_dev_spec xs =
     sqrt ((\<Sum>x\<leftarrow>xs. x ^ 2) / real (length xs) - (sum_list xs / real (length xs)) ^ 2)"

subsection \<open>Example frames\<close>

text \<open>A part of the Unicode database: the ASCII digits and the Arabic-Indic digits
  U+0660 to U+0669 have decimal values, no other code point used in the examples has
  one.\<close>

definition todecimal_sample :: "nat \<Rightarrow> int" where
  "todecimal_sample c =
     (if 48 \<le> c \<and> c \<le> 57 then int c - 48
      else if 1632 \<le> c \<and> c \<le> 1641 then int c - 1632
      else - 1)"

text \<open>The file name \<^verbatim>\<open>v_NNNN.jpg\<close> whose four digits are the Arabic-Indic digits
  0, 0, 0, 1.\<close>

definition arabic_0001 :: ustr where
  "arabic_0001 = str ''v_'' @ [1632, 1632, 1632, 1633] @ str ''.jpg''"


text \<open>Three frames with text (standard deviation 100, 95 and 100) and a uniform frame;
  \<open>img_text_a\<close> and \<open>img_text_b\<close> differ by 5, \<open>img_text_a\<close> and
  \<open>img_text_c\<close> by 200.\<close>

definition img_text_a :: ndarray where
  "img_text_a = \<lparr>shape = [1, 2], data = [0, 200]\<rparr>"

definition img_text_b :: ndarray where
  "img_text_b = \<lparr>shape = [1, 2], data = [10, 200]\<rparr>"

definition img_text_c :: ndarray where
  "img_text_c = \<lparr>shape = [1, 2], data = [200, 0]\<rparr>"

definition img_blank :: ndarray where
  "img_blank = \<lparr>shape = [1, 2], data = [7, 7]\<rparr>"

text \<open>The scenario of the specification: frames 0001 to 0005 carry text and differ
  pairwise by 5, frame 0006 is blank, frame 0007 shows the image of frame 0005 again.\<close>

definition scenario_files :: "(int \<times> ustr) list" where
  "scenario_files =
     [(1, str ''v_0001.jpg''), (2, str ''v_0002.jpg''), (3, str ''v_0003.jpg''), (4, str ''v_0004.jpg''),
      (5, str ''v_0005.jpg''), (6, str ''v_0006.jpg''), (7, str ''v_0007.jpg'')]"

definition scenario_load :: "ustr \<Rightarrow> ndarray option" where
  "scenario_load =
     map_of [(str ''v_0001.jpg'', img_text_a), (str ''v_0002.jpg'', img_text_b),
             (str ''v_0003.jpg'', img_text_a), (str ''v_0004.jpg'', img_text_b),
             (str ''v_0005.jpg'', img_text_a), (str ''v_0006.jpg'', img_blank),
             (str ''v_0007.jpg'', img_text_a)]"

definition scenario_first :: segment where
  "scenario_first =
     \<lparr>video_id = str ''v'', segment_id = 1, start_time = 0, end_time = 4, start_frame = 1,
      end_frame = 5, frame_count = 5, representative_frame = str ''v_0001.jpg''\<rparr>"

definition scenario_second :: segment where
  "scenario_second =
     \<lparr>video_id = str ''v'', segment_id = 2, start_time = 6, end_time = 6, start_frame = 7,
      end_frame = 7, frame_count = 1, representative_frame = str ''v_0007.jpg''\<rparr>"

text \<open>Two frames of one subtitle with frame 0002 missing.\<close>

definition gap_files :: "(int \<times> ustr) list" where
  "gap_files = [(1, str ''v_0001.jpg''), (3, str ''v_0003.jpg'')]"

definition gap_segment :: segment where
  "gap_segment =
     \<lparr>video_id = str ''v'', segment_id = 1, start_time = 0, end_time = 2, start_frame = 1,
      end_frame = 3, frame_count = 2, representative_frame = str ''v_0001.jpg''\<rparr>"

text \<open>Two frames of one subtitle followed by one frame of another.\<close>

definition short_files :: "(int \<times> ustr) list" where
  "short_files = [(9, str ''v_0009.jpg''), (10, str ''v_0010.jpg''), (11, str ''v_0011.jpg'')]"

definition short_load :: "ustr \<Rightarrow> ndarray option" where
  "short_load =
     map_of [(str ''v_0009.jpg'', img_text_a), (str ''v_0010.jpg'', img_text_b),
             (str ''v_0011.jpg'', img_text_c)]"

definition short_first :: segment where
  "short_first =
     \<lparr>video_id = str ''v'', segment_id = 1, start_time = 8, end_time = 9, start_frame = 9,
      end_frame = 10, frame_count = 2, representative_frame = str ''v_0009.jpg''\<rparr>"

definition short_second :: segment where
  "short_second =
     \<lparr>video_id = str ''v'', segment_id = 2, start_time = 10, end_time = 10, start_frame = 11,
      end_frame = 11, frame_count = 1, representative_frame = str ''v_0011.jpg''\<rparr>"

text \<open>A directory with two frames that differ by 5.\<close>

definition mono_listing :: "ustr list" where
  "mono_listing = [str ''v_0002.jpg'', str ''v_0001.jpg'']"

definition mono_merged :: segment where
  "mono_merged =
     \<lparr>video_id = str ''v'', segment_id = 1, start_time = 0, end_time = 1, start_frame = 1,
      end_frame = 2, frame_count = 2, representative_frame = str ''v_0001.jpg''\<rparr>"

text \<open>The frames of \<open>mono_listing\<close> and the two segments of the lower threshold.\<close>

definition mono_files :: "(int \<times> ustr) list" where
  "mono_files = [(1, str ''v_0001.jpg''), (2, str ''v_0002.jpg'')]"

definition mono_split_first :: segment where
  "mono_split_first =
     \<lparr>video_id = str ''v'', segment_id = 1, start_time = 0, end_time = 0, start_frame = 1,
      end_frame = 1, frame_count = 1, representative_frame = str ''v_0001.jpg''\<rparr>"

definition mono_split_second :: segment where
  "mono_split_second =
     \<lparr>video_id = str ''v'', segment_id = 2, start_time = 1, end_time = 1, start_frame = 2,
      end_frame = 2, frame_count = 1, representative_frame = str ''v_0002.jpg''\<rparr>"

section \<open>Properties\<close>

subsection \<open>The loader: which names enter the frame list\<close>

lemma set_map_filter_iff:
  "y \<in> set (List.map_filter g xs) \<longleftrightarrow> (\<exists>x\<in>set xs. g x = Some y)"
  by (induction xs) (auto simp: List.map_filter_simps split: option.splits)

lemma set_find_frames:
  "(n, f) \<in> set (find_frames todecimal listing vid) \<longleftrightarrow>
     f \<in> set listing \<and> (\<exists>grp. pattern_match todecimal vid f = Some grp \<and> n = int_of_digits todecimal grp)"
  by (auto simp: find_frames_def set_map_filter_iff split: option.splits)

lemma find_frames_empty_iff:
  "find_frames todecimal listing vid = [] \<longleftrightarrow> (\<forall>f\<in>set listing. pattern_match todecimal vid f = None)"
proof
  assume e: "find_frames todecimal listing vid = []"
  show "\<forall>f\<in>set listing. pattern_match todecimal vid f = None"
  proof
    fix f assume f: "f \<in> set listing"
    show "pattern_match todecimal vid f = None"
    proof (cases "pattern_match todecimal vid f")
      case (Some grp)
      with f have "(int_of_digits todecimal grp, f) \<in> set (find_frames todecimal listing vid)"
        by (simp add: set_find_frames)
      with e show ?thesis by simp
    qed simp
  qed
next
  assume n: "\<forall>f\<in>set listing. pattern_match todecimal vid f = None"
  have "x \<notin> set (find_frames todecimal listing vid)" for x
    using n set_find_frames [of "fst x" "snd x" todecimal listing vid] by fastforce
  then show "find_frames todecimal listing vid = []"
    by (cases "find_frames todecimal listing vid") (simp, metis list.set_intros(1))
qed

lemma digit_value:
  assumes "decimal_table todecimal" "is_digit todecimal c"
  shows "0 \<le> todecimal c \<and> todecimal c \<le> 9"
  using assms by (simp add: decimal_table_def is_digit_def)

lemma foldl_digits_bound:
  assumes "decimal_table todecimal"
  shows "list_all (is_digit todecimal) ds \<Longrightarrow> 0 \<le> (a::int) \<Longrightarrow>
     0 \<le> foldl (\<lambda>a c. 10 * a + todecimal c) a ds \<and>
     foldl (\<lambda>a c. 10 * a + todecimal c) a ds < (a + 1) * 10 ^ length ds"
proof (induction ds arbitrary: a)
  case Nil
  then show ?case by simp
next
  case (Cons c ds)
  from Cons.prems have d: "0 \<le> todecimal c" "todecimal c \<le> 9"
    using digit_value [OF assms, of c] by auto
  define b :: int where "b = 10 * a + todecimal c"
  have b0: "0 \<le> b" using d Cons.prems by (simp add: b_def)
  from Cons.IH [of b] Cons.prems b0
  have ih: "0 \<le> foldl (\<lambda>a c. 10 * a + todecimal c) b ds"
    "foldl (\<lambda>a c. 10 * a + todecimal c) b ds < (b + 1) * 10 ^ length ds"
    by auto
  have "b + 1 \<le> (a + 1) * 10" using d by (simp add: b_def)
  then have "(b + 1) * 10 ^ length ds \<le> ((a + 1) * 10) * 10 ^ length ds"
    by (intro mult_right_mono) auto
  also have "\<dots> = (a + 1) * 10 ^ length (c # ds)"
    by simp
  finally have "foldl (\<lambda>a c. 10 * a + todecimal c) b ds < (a + 1) * 10 ^ length (c # ds)"
    using ih(2) by linarith
  with ih(1) show ?case by (simp add: b_def)
qed

lemma int_of_digits_bound:
  assumes "decimal_table todecimal" "list_all (is_digit todecimal) ds"
  shows "0 \<le> int_of_digits todecimal ds \<and> int_of_digits todecimal ds < 10 ^ length ds"
  using foldl_digits_bound [OF assms, of 0] by (simp add: int_of_digits_def)

lemma pattern_match_SomeD:
  assumes "pattern_match todecimal vid f = Some grp"
  shows "length grp = 4" "list_all (is_digit todecimal) grp"
    "f = vid @ str ''_'' @ grp @ str ''.jpg'' \<or> f = vid @ str ''_'' @ grp @ str ''.jpg'' @ [10]"
proof -
  define p where "p = vid @ str ''_''"
  define r where "r = drop (length p) f"
  from assms have a: "take (length p) f = p" "length (take 4 r) = 4"
    "list_all (is_digit todecimal) (take 4 r)" "grp = take 4 r"
    "drop 4 r = str ''.jpg'' \<or> drop 4 r = str ''.jpg'' @ [10]"
    unfolding pattern_match_def Let_def p_def r_def by (simp_all split: if_splits)
  show "length grp = 4" "list_all (is_digit todecimal) grp" using a by auto
  have "f = take (length p) f @ r" by (simp add: r_def)
  also have "r = take 4 r @ drop 4 r" by simp
  finally have "f = p @ grp @ drop 4 r" using a(1,4) by simp
  with a(5) show "f = vid @ str ''_'' @ grp @ str ''.jpg'' \<or> f = vid @ str ''_'' @ grp @ str ''.jpg'' @ [10]"
    by (auto simp: p_def)
qed

text \<open>What the pattern accepts, spelled out.\<close>

lemma pattern_match_iff:
  "pattern_match todecimal vid f = Some grp \<longleftrightarrow>
     length grp = 4 \<and> list_all (is_digit todecimal) grp \<and>
     (f = vid @ str ''_'' @ grp @ str ''.jpg'' \<or> f = vid @ str ''_'' @ grp @ str ''.jpg'' @ [10])"
proof
  assume "pattern_match todecimal vid f = Some grp"
  from pattern_match_SomeD [OF this] show
    "length grp = 4 \<and> list_all (is_digit todecimal) grp \<and>
     (f = vid @ str ''_'' @ grp @ str ''.jpg'' \<or> f = vid @ str ''_'' @ grp @ str ''.jpg'' @ [10])"
    by simp
next
  assume a: "length grp = 4 \<and> list_all (is_digit todecimal) grp \<and>
     (f = vid @ str ''_'' @ grp @ str ''.jpg'' \<or> f = vid @ str ''_'' @ grp @ str ''.jpg'' @ [10])"
  then have g: "length grp = 4" "list_all (is_digit todecimal) grp" by simp_all
  from a consider "f = (vid @ str ''_'') @ grp @ str ''.jpg''"
    | "f = (vid @ str ''_'') @ grp @ str ''.jpg'' @ [10]"
    by auto
  then show "pattern_match todecimal vid f = Some grp"
  proof cases
    case 1
    with g show ?thesis
      unfolding pattern_match_def Let_def by (simp del: append_assoc)
  next
    case 2
    with g show ?thesis
      unfolding pattern_match_def Let_def by (simp del: append_assoc)
  qed
qed

lemma pattern_match_other_width:
  assumes "length field \<noteq> 4"
  shows "pattern_match todecimal vid (vid @ str ''_'' @ field @ str ''.jpg'') = None"
proof (rule ccontr)
  assume "pattern_match todecimal vid (vid @ str ''_'' @ field @ str ''.jpg'') \<noteq> None"
  then obtain grp where g: "pattern_match todecimal vid (vid @ str ''_'' @ field @ str ''.jpg'') = Some grp"
    by auto
  from pattern_match_SomeD [OF g]
  have len: "length grp = 4"
    and eq: "vid @ str ''_'' @ field @ str ''.jpg'' = vid @ str ''_'' @ grp @ str ''.jpg''
           \<or> vid @ str ''_'' @ field @ str ''.jpg'' = vid @ str ''_'' @ grp @ str ''.jpg'' @ [10]"
    by auto
  from eq show False
  proof
    assume "vid @ str ''_'' @ field @ str ''.jpg'' = vid @ str ''_'' @ grp @ str ''.jpg''"
    then have "field = grp" by simp
    with len assms show False by simp
  next
    assume "vid @ str ''_'' @ field @ str ''.jpg'' = vid @ str ''_'' @ grp @ str ''.jpg'' @ [10]"
    then have "field @ str ''.jpg'' = (grp @ str ''.jpg'') @ [10]" by simp
    then have "last (field @ str ''.jpg'') = last ((grp @ str ''.jpg'') @ [10])" by (rule arg_cong)
    then show False by (simp add: str_def)
  qed
qed

text \<open>
  Claim C10. The loader keeps only names whose frame-number field is exactly four
  digits wide. A name \<open>vid_field.jpg\<close> whose field has any other length (in
  characters) is not matched and is in no frame list, whatever else the directory holds;
  every frame that does enter the list comes from the listing, and since a decimal digit
  of any script has a value from 0 to 9, its number is between 0 and 9999.
\<close>

theorem loader_four_digits_only:
  "(length field \<noteq> 4 \<longrightarrow>
      pattern_match todecimal vid (vid @ str ''_'' @ field @ str ''.jpg'') = None \<and>
      (\<forall>n. (n, vid @ str ''_'' @ field @ str ''.jpg'')
             \<notin> set (find_frames todecimal listing vid)))
   \<and> (\<forall>(n, f)\<in>set (find_frames todecimal listing vid). f \<in> set listing)
   \<and> (decimal_table todecimal \<longrightarrow>
        (\<forall>(n, f)\<in>set (find_frames todecimal listing vid). 0 \<le> n \<and> n \<le> 9999))"
proof (intro conjI impI ballI)
  assume w: "length field \<noteq> 4"
  show "pattern_match todecimal vid (vid @ str ''_'' @ field @ str ''.jpg'') = None"
    using w by (rule pattern_match_other_width)
  then show "\<forall>n. (n, vid @ str ''_'' @ field @ str ''.jpg'')
      \<notin> set (find_frames todecimal listing vid)"
    by (simp add: set_find_frames)
next
  fix x assume x: "x \<in> set (find_frames todecimal listing vid)"
  obtain n f where nf: "x = (n, f)" by (cases x)
  with x show "case x of (n, f) \<Rightarrow> f \<in> set listing"
    by (simp add: set_find_frames)
next
  fix x assume t: "decimal_table todecimal" and x: "x \<in> set (find_frames todecimal listing vid)"
  obtain n f where nf: "x = (n, f)" by (cases x)
  with x obtain grp where g: "pattern_match todecimal vid f = Some grp"
    "n = int_of_digits todecimal grp"
    by (auto simp: set_find_frames)
  from pattern_match_SomeD(1,2) [OF g(1)] int_of_digits_bound [OF t, of grp]
  have "0 \<le> n \<and> n < 10 ^ 4" using g(2) by simp
  with nf show "case x of (n, f) \<Rightarrow> 0 \<le> n \<and> n \<le> 9999"
    by simp
qed

lemma decimal_table_sample: "decimal_table todecimal_sample"
  by (simp add: decimal_table_def todecimal_sample_def)

lemmas loader_simps =
  find_frames_def pattern_match_def List.map_filter_simps is_digit_def int_of_digits_def
  todecimal_sample_def str_def

theorem loader_four_digits_only_witness:
  "decimal_table todecimal_sample
   \<and> length (str ''12345'') \<noteq> 4 \<and> length (str ''001'') \<noteq> 4
   \<and> find_frames todecimal_sample
        [str ''v_12345.jpg'', str ''v_0002.jpg'', str ''v_001.jpg'', arabic_0001] (str ''v'')
       = [(1, arabic_0001), (2, str ''v_0002.jpg'')]
   \<and> (\<forall>n. (n, str ''v'' @ str ''_'' @ str ''12345'' @ str ''.jpg'')
          \<notin> set (find_frames todecimal_sample
                 [str ''v_12345.jpg'', str ''v_0002.jpg'', str ''v_001.jpg'', arabic_0001]
                 (str ''v'')))
   \<and> (\<forall>n. (n, str ''v'' @ str ''_'' @ str ''001'' @ str ''.jpg'')
          \<notin> set (find_frames todecimal_sample
                 [str ''v_12345.jpg'', str ''v_0002.jpg'', str ''v_001.jpg'', arabic_0001]
                 (str ''v'')))
   \<and> list_all (\<lambda>(n, f). 0 \<le> n \<and> n \<le> 9999)
         (find_frames todecimal_sample
            [str ''v_12345.jpg'', str ''v_0002.jpg'', str ''v_001.jpg'', arabic_0001] (str ''v''))"
proof -
  let ?L = "[str ''v_12345.jpg'', str ''v_0002.jpg'', str ''v_001.jpg'', arabic_0001]"
  have f: "find_frames todecimal_sample ?L (str ''v'')
      = [(1, arabic_0001), (2, str ''v_0002.jpg'')]"
    by (simp add: loader_simps arabic_0001_def)
  from loader_four_digits_only [of "str ''12345''" todecimal_sample "str ''v''" ?L]
    loader_four_digits_only [of "str ''001''" todecimal_sample "str ''v''" ?L]
    decimal_table_sample
  have "(\<forall>n. (n, str ''v'' @ str ''_'' @ str ''12345'' @ str ''.jpg'')
          \<notin> set (find_frames todecimal_sample ?L (str ''v'')))
      \<and> (\<forall>n. (n, str ''v'' @ str ''_'' @ str ''001'' @ str ''.jpg'')
          \<notin> set (find_frames todecimal_sample ?L (str ''v'')))
      \<and> (\<forall>(n, f)\<in>set (find_frames todecimal_sample ?L (str ''v'')). 0 \<le> n \<and> n \<le> 9999)"
    by (simp add: str_def)
  then show ?thesis
    using decimal_table_sample f by (simp add: list_all_iff) (simp add: str_def)
qed

text \<open>
  Claim C4, as amended. When no name of the directory is matched by the pattern for the
  video identifier, \<open>segment_frames\<close> raises the builtin \<^verbatim>\<open>ValueError\<close> with the
  message "No frames found for video_id: " followed by the identifier. The result is the
  same for every decoder and every threshold: no image is loaded and no segment is built.
\<close>

theorem no_frames_raises:
  assumes "\<forall>f\<in>set listing. pattern_match todecimal vid f = None"
  shows "segment_frames todecimal listing load vid dt bt md =
           Inl (ValueError (str ''No frames found for video_id: '' @ vid))
       \<and> exception_class (ValueError (str ''No frames found for video_id: '' @ vid))
           = Some ''ValueError''"
  using assms by (simp add: segment_frames_def segment_frame_files_def find_frames_empty_iff)

theorem no_frames_raises_witness:
  "pattern_match todecimal_sample (str ''0-1'') (str ''notes.txt'') = None
   \<and> pattern_match todecimal_sample (str ''0-1'') (str ''0-2_0001.jpg'') = None
   \<and> pattern_match todecimal_sample (str ''0-1'') (str ''0-1_001.jpg'') = None
   \<and> segment_frames todecimal_sample
        [str ''notes.txt'', str ''0-2_0001.jpg'', str ''0-1_001.jpg''] (\<lambda>f. None) (str ''0-1'')
        15 30 1 =
       Inl (ValueError (str ''No frames found for video_id: 0-1''))"
proof -
  have h: "\<forall>f\<in>set [str ''notes.txt'', str ''0-2_0001.jpg'', str ''0-1_001.jpg''].
             pattern_match todecimal_sample (str ''0-1'') f = None"
    by (simp add: loader_simps)
  show ?thesis
    using h no_frames_raises [OF h, of "\<lambda>f. None" 15 30 1] by (simp add: str_def)
qed

text \<open>
  Counterexample to claim C4 as it was stated: the exception raised for a directory
  without frames is the builtin \<^verbatim>\<open>ValueError\<close>; the program defines no
  \<^verbatim>\<open>NoFramesFoundError\<close>.
\<close>

theorem no_frames_raises_counterexample:
  "pattern_match todecimal_sample (str ''v'') (str ''notes.txt'') = None
   \<and> segment_frames todecimal_sample [str ''notes.txt''] (\<lambda>f. None) (str ''v'') 15 30 1
       = Inl (ValueError (str ''No frames found for video_id: v''))
   \<and> exception_class (ValueError (str ''No frames found for video_id: v''))
       \<noteq> Some ''NoFramesFoundError''"
  by (simp add: segment_frames_def segment_frame_files_def loader_simps)

subsection \<open>The loader: order of the frame list\<close>

lemma int_of_digits_inj_aux:
  assumes t: "decimal_table todecimal"
  shows "length ds = length es \<Longrightarrow> list_all (is_digit todecimal) ds \<Longrightarrow>
     list_all (is_digit todecimal) es \<Longrightarrow>
     int_of_digits todecimal (rev ds) = int_of_digits todecimal (rev es) \<Longrightarrow>
     map todecimal ds = map todecimal es"
proof (induction ds es rule: list_induct2)
  case Nil
  then show ?case by simp
next
  case (Cons c ds e es)
  let ?X = "int_of_digits todecimal (rev ds)" and ?Y = "int_of_digits todecimal (rev es)"
  from Cons.prems have dc: "is_digit todecimal c" and de: "is_digit todecimal e"
    and dds: "list_all (is_digit todecimal) ds" and des: "list_all (is_digit todecimal) es"
    by simp_all
  from Cons.prems(3) have eq: "10 * ?X + todecimal c = 10 * ?Y + todecimal e"
    by (simp add: int_of_digits_def)
  from digit_value [OF t dc] digit_value [OF t de] eq
  have "?X = ?Y" "todecimal c = todecimal e"
    by presburger+
  with Cons.IH [OF dds des] show ?case by simp
qed

lemma int_of_digits_inj:
  assumes "decimal_table todecimal" "length ds = length es"
    "list_all (is_digit todecimal) ds" "list_all (is_digit todecimal) es"
    "int_of_digits todecimal ds = int_of_digits todecimal es"
  shows "map todecimal ds = map todecimal es"
proof -
  from int_of_digits_inj_aux [OF assms(1), of "rev ds" "rev es"] assms(2-5)
  have "map todecimal (rev ds) = map todecimal (rev es)" by simp
  then have "rev (map todecimal ds) = rev (map todecimal es)" by (simp only: rev_map)
  then show ?thesis by simp
qed

lemma map_eq_inj:
  assumes "map h xs = map h ys" "\<forall>x\<in>set xs. \<forall>y\<in>set ys. h x = h y \<longrightarrow> x = y"
  shows "xs = ys"
proof -
  from assms(1) have "length xs = length ys" by (rule map_eq_imp_length_eq)
  then show ?thesis
    using assms by (induction xs ys rule: list_induct2) auto
qed

lemma sorted_distinct_fst:
  assumes "sorted xs" "distinct (map fst xs)"
  shows "sorted_wrt (\<lambda>a b. fst a < fst b) xs"
  using assms
proof (induction xs)
  case Nil
  then show ?case by simp
next
  case (Cons x xs)
  have "fst x < fst y" if "y \<in> set xs" for y
  proof -
    from Cons.prems(1) that have "x \<le> y" by simp
    then have "fst x \<le> fst y" by (auto simp: less_eq_prod_def)
    moreover from Cons.prems(2) that have "fst x \<noteq> fst y" by force
    ultimately show ?thesis by simp
  qed
  with Cons show ?case by simp
qed

lemma distinct_map_filter:
  assumes "distinct xs" "\<And>x y z. g x = Some z \<Longrightarrow> g y = Some z \<Longrightarrow> x = y"
  shows "distinct (List.map_filter g xs)"
  using assms(1)
proof (induction xs)
  case Nil
  then show ?case by (simp add: List.map_filter_simps)
next
  case (Cons x xs)
  then show ?case
    using assms(2) by (auto simp: List.map_filter_simps set_map_filter_iff split: option.splits)
qed

text \<open>A directory whose names do not end in a newline and use the digits of one script
  (two digits with the same value are the same character) gives strictly ascending frame
  numbers: the name determines the four digits and the digits determine the number.\<close>

lemma ascending_find_frames:
  assumes t: "decimal_table todecimal"
    and "distinct listing" and nl: "\<forall>f\<in>set listing. f = [] \<or> last f \<noteq> 10"
    and script: "\<forall>f\<in>set listing. \<forall>g\<in>set listing. \<forall>c\<in>set f. \<forall>e\<in>set g.
                   0 \<le> todecimal c \<and> todecimal c = todecimal e \<longrightarrow> c = e"
  shows "ascending (find_frames todecimal listing vid)"
proof -
  have inj: "a = b" if "a \<in> set (find_frames todecimal listing vid)"
    "b \<in> set (find_frames todecimal listing vid)" "fst a = fst b" for a b
  proof -
    obtain n f m g where ab: "a = (n, f)" "b = (m, g)" by (cases a, cases b)
    from that(1,2) obtain ga gb where
      fa: "f \<in> set listing" "pattern_match todecimal vid f = Some ga"
        "n = int_of_digits todecimal ga" and
      fb: "g \<in> set listing" "pattern_match todecimal vid g = Some gb"
        "m = int_of_digits todecimal gb"
      by (auto simp: ab set_find_frames)
    note pa = pattern_match_SomeD [OF fa(2)] and pb = pattern_match_SomeD [OF fb(2)]
    from that(3) fa(3) fb(3) have "int_of_digits todecimal ga = int_of_digits todecimal gb"
      by (simp add: ab)
    with pa(1,2) pb(1,2) have mm: "map todecimal ga = map todecimal gb"
      by (intro int_of_digits_inj [OF t]) simp_all
    from pa(3) have sa: "set ga \<subseteq> set f" by auto
    from pb(3) have sb: "set gb \<subseteq> set g" by auto
    have "\<forall>c\<in>set ga. \<forall>e\<in>set gb. todecimal c = todecimal e \<longrightarrow> c = e"
    proof (intro ballI impI)
      fix c e assume c: "c \<in> set ga" and e: "e \<in> set gb" and v: "todecimal c = todecimal e"
      from pa(2) c have "0 \<le> todecimal c"
        by (simp add: list_all_iff is_digit_def)
      with script fa(1) fb(1) sa sb c e v show "c = e" by blast
    qed
    with mm have gg: "ga = gb" by (rule map_eq_inj)
    from pa(3) nl fa(1) have "f = vid @ str ''_'' @ ga @ str ''.jpg''" by fastforce
    moreover from pb(3) nl fb(1) have "g = vid @ str ''_'' @ gb @ str ''.jpg''" by fastforce
    ultimately show ?thesis
      using gg fa(3) fb(3) by (simp add: ab)
  qed
  have d: "distinct (find_frames todecimal listing vid)"
    unfolding find_frames_def distinct_sort
    by (rule distinct_map_filter) (use assms(2) in \<open>auto split: option.splits\<close>)
  have "distinct (map fst (find_frames todecimal listing vid))"
    using d inj by (simp add: distinct_map inj_on_def)
  moreover have "sorted (find_frames todecimal listing vid)"
    by (simp add: find_frames_def)
  ultimately show ?thesis
    unfolding ascending_def by (intro sorted_distinct_fst)
qed

text \<open>Python's \<^verbatim>\<open>$\<close> lets a name with a final newline match as well, and
  \<^verbatim>\<open>\d\<close> accepts the digits of every script, so one frame number can occur twice.\<close>

lemma find_frames_newline_duplicate:
  "find_frames todecimal_sample [str ''v_0001.jpg'', str ''v_0001.jpg'' @ [10]] (str ''v'')
     = [(1, str ''v_0001.jpg''), (1, str ''v_0001.jpg'' @ [10])]"
  by (simp add: loader_simps)

lemma find_frames_script_duplicate:
  "find_frames todecimal_sample [arabic_0001, str ''v_0001.jpg''] (str ''v'')
     = [(1, str ''v_0001.jpg''), (1, arabic_0001)]"
  by (simp add: loader_simps arabic_0001_def)

subsection \<open>Evaluating the two measures and the example runs\<close>

lemma float_lt_sqrt: "0 < t \<Longrightarrow> float_lt (Some (sqrt v)) t = (v < t ^ 2)"
proof -
  assume t: "0 < t"
  then have "sqrt (t ^ 2) = t" by simp
  then have "(sqrt v < t) = (sqrt v < sqrt (t ^ 2))" by simp
  also have "\<dots> = (v < t ^ 2)" by (rule real_sqrt_less_iff)
  finally show ?thesis by (simp add: float_lt_def)
qed

lemma is_blank_frame_eval:
  assumes "0 < t"
  shows "is_blank_frame img t =
           (case gray img of None \<Rightarrow> False | Some xs \<Rightarrow> xs \<noteq> [] \<and> variance xs < t ^ 2)"
  using float_lt_sqrt [OF assms]
  by (auto simp: is_blank_frame_def np_std_def np_mean_def variance_def float_lt_def
      split: option.splits)

lemma fixtures_blank:
  "\<not> is_blank_frame img_text_a 30" "\<not> is_blank_frame img_text_b 30"
  "\<not> is_blank_frame img_text_c 30" "is_blank_frame img_blank 30"
  by (simp_all add: is_blank_frame_eval gray_def variance_def
      img_text_a_def img_text_b_def img_text_c_def img_blank_def)

lemma fixtures_diff:
  "calculate_frame_difference img_text_a img_text_b = Inr (Some 5)"
  "calculate_frame_difference img_text_b img_text_a = Inr (Some 5)"
  "calculate_frame_difference img_text_a img_text_a = Inr (Some 0)"
  "calculate_frame_difference img_text_b img_text_b = Inr (Some 0)"
  "calculate_frame_difference img_text_a img_text_c = Inr (Some 200)"
  "calculate_frame_difference img_text_c img_text_a = Inr (Some 200)"
  by (simp_all add: calculate_frame_difference_def np_mean_def
      img_text_a_def img_text_b_def img_text_c_def)

lemmas run_simps =
  raw_segments_def loop_body_def is_same_subtitle_def append_current_def initial_state_def
  float_lt_def fixtures_blank fixtures_diff

lemma scenario_raw:
  "raw_segments scenario_load (str ''v'') 15 30 scenario_files = Inr [scenario_first, scenario_second]"
  by (simp add: run_simps scenario_files_def scenario_load_def str_def scenario_first_def scenario_second_def)

lemma scenario_ascending: "ascending scenario_files"
  by (simp add: ascending_def scenario_files_def)

lemma scenario_out:
  "segment_frame_files scenario_load (str ''v'') 15 30 md scenario_files
     = Inr (filter_segments md [scenario_first, scenario_second])"
  by (simp add: segment_frame_files_def scenario_raw) (simp add: scenario_files_def)



lemma fixtures_blank_120:
  "is_blank_frame img_text_a 120" "is_blank_frame img_text_b 120" "is_blank_frame img_blank 120"
  by (simp_all add: is_blank_frame_eval gray_def variance_def
      img_text_a_def img_text_b_def img_blank_def)

subsection \<open>The loop: case analysis and invariant rules\<close>

lemma loop_body_cases:
  assumes "loop_body load vid dt bt st (n, f) = Inr st'"
  obtains
    (blank) img where "load f = Some img" "is_blank_frame img bt"
      "st' = \<lparr>segments = append_current st, current_segment = None, prev_img = Some img\<rparr>"
  | (new) img where "load f = Some img" "\<not> is_blank_frame img bt"
      "is_same_subtitle dt bt (prev_img st) img = Inr False"
      "st' = \<lparr>segments = append_current st,
             current_segment = Some (new_segment vid (length (append_current st)) n f),
             prev_img = Some img\<rparr>"
  | (extend) img cs where "load f = Some img" "\<not> is_blank_frame img bt"
      "is_same_subtitle dt bt (prev_img st) img = Inr True"
      "current_segment st = Some cs"
      "st' = \<lparr>segments = segments st,
             current_segment = Some (extend_segment cs n),
             prev_img = Some img\<rparr>"
  using assms
  by (auto simp: loop_body_def new_segment_def extend_segment_def Let_def
      split: option.splits sum.splits if_splits)


text \<open>Invariant rule for the loop: \<open>done\<close> is the list of frames already processed,
  \<open>P\<close> relates each frame to the next one.\<close>

lemma frame_loop_invariant:
  assumes "frame_loop load vid dt bt st fs = Inr st'"
    and "I done st"
    and "successively P (done @ fs)"
    and step: "\<And>done st ff st'. I done st \<Longrightarrow> successively P (done @ [ff]) \<Longrightarrow>
                 loop_body load vid dt bt st ff = Inr st' \<Longrightarrow> I (done @ [ff]) st'"
  shows "I (done @ fs) st'"
  using assms(1-3)
proof (induction fs arbitrary: "done" st)
  case Nil
  then show ?case by simp
next
  case (Cons ff fs)
  from Cons.prems(1) obtain st1 where
    b: "loop_body load vid dt bt st ff = Inr st1" and
    r: "frame_loop load vid dt bt st1 fs = Inr st'"
    by (auto split: sum.splits)
  from Cons.prems(3) have s1: "successively P (done @ [ff])"
    and s2: "successively P ((done @ [ff]) @ fs)"
    by (auto simp: successively_append_iff successively_Cons)
  from step [OF Cons.prems(2) s1 b] have "I (done @ [ff]) st1" .
  from Cons.IH [OF r this s2] show ?case by simp
qed

lemma frame_loop_preserves:
  assumes "frame_loop load vid dt bt st fs = Inr st'"
    and "I st"
    and step: "\<And>st ff st'. I st \<Longrightarrow> loop_body load vid dt bt st ff = Inr st' \<Longrightarrow> I st'"
  shows "I st'"
  using assms(1,2)
proof (induction fs arbitrary: st)
  case Nil
  then show ?case by simp
next
  case (Cons ff fs)
  from Cons.prems(1) obtain st1 where
    b: "loop_body load vid dt bt st ff = Inr st1" and
    r: "frame_loop load vid dt bt st1 fs = Inr st'"
    by (auto split: sum.splits)
  from step [OF Cons.prems(2) b] have "I st1" .
  then show ?case by (rule Cons.IH [OF r])
qed

lemma append_current_simps:
  "append_current \<lparr>segments = xs, current_segment = None, prev_img = p\<rparr> = xs"
  "append_current \<lparr>segments = xs, current_segment = Some c, prev_img = p\<rparr> = xs @ [c]"
  by (simp_all add: append_current_def)

lemma append_current_Some: "current_segment st = Some cs \<Longrightarrow> append_current st = segments st @ [cs]"
  by (simp add: append_current_def)

subsection \<open>Segment ids\<close>

lemma ids_inv_step:
  assumes "ids_inv st" "loop_body load vid dt bt st ff = Inr st'"
  shows "ids_inv st'"
proof -
  obtain n f where ff: "ff = (n, f)" by (cases ff)
  from assms(2) [unfolded ff] show ?thesis
  proof (cases rule: loop_body_cases)
    case (blank img)
    with assms(1) show ?thesis by (simp add: ids_inv_def append_current_simps)
  next
    case (new img)
    with assms(1) show ?thesis
      by (simp add: ids_inv_def append_current_simps new_segment_def)
  next
    case (extend img cs)
    with assms(1) show ?thesis
      by (simp add: ids_inv_def append_current_simps append_current_Some extend_segment_def)
  qed
qed

lemma ids_inv_loop:
  assumes "frame_loop load vid dt bt st fs = Inr st'" "ids_inv st"
  shows "ids_inv st'"
  using assms(1,2) ids_inv_step by (rule frame_loop_preserves)

lemma ids_inv_initial: "ids_inv initial_state"
  by (simp add: ids_inv_def initial_state_def append_current_def)

subsection \<open>Times are frame numbers minus one\<close>

lemma times_inv_step:
  assumes "times_inv st" "loop_body load vid dt bt st ff = Inr st'"
  shows "times_inv st'"
proof -
  obtain n f where ff: "ff = (n, f)" by (cases ff)
  from assms(2) [unfolded ff] show ?thesis
  proof (cases rule: loop_body_cases)
    case (blank img)
    with assms(1) show ?thesis by (simp add: times_inv_def append_current_simps)
  next
    case (new img)
    with assms(1) show ?thesis
      by (simp add: times_inv_def append_current_simps new_segment_def)
  next
    case (extend img cs)
    with assms(1) show ?thesis
      by (simp add: times_inv_def append_current_simps append_current_Some extend_segment_def)
  qed
qed

lemma times_inv_loop:
  assumes "frame_loop load vid dt bt st fs = Inr st'" "times_inv st"
  shows "times_inv st'"
  using assms(1,2) times_inv_step by (rule frame_loop_preserves)

lemma times_inv_initial: "times_inv initial_state"
  by (simp add: times_inv_def initial_state_def append_current_def)

subsection \<open>The invariant for ascending frame numbers\<close>

lemma ascending_snoc:
  assumes "successively (\<lambda>a b. fst a < fst b) (done @ [(n :: int, f :: ustr)])"
  shows "\<forall>d\<in>set done. fst d < n" "done \<noteq> [] \<Longrightarrow> \<forall>d\<in>set done. fst d \<le> fst (last done)"
proof -
  have tr: "transp (\<lambda>a b :: int \<times> ustr. fst a < fst b)"
    by (auto simp: transp_def)
  from assms have s: "sorted_wrt (\<lambda>a b. fst a < fst b) (done @ [(n, f)])"
    by (simp add: successively_conv_sorted_wrt [OF tr])
  then show "\<forall>d\<in>set done. fst d < n"
    by (auto simp: sorted_wrt_append)
  assume ne: "done \<noteq> []"
  then obtain ds d where "done = ds @ [d]" by (metis rev_exhaust)
  with s show "\<forall>d\<in>set done. fst d \<le> fst (last done)"
    by (auto simp: sorted_wrt_append less_imp_le)
qed

lemma seg_ok_snoc_outside:
  assumes "seg_ok done s" "done \<noteq> []" "fst (last done) < n"
  shows "seg_ok (done @ [(n, f)]) s" "\<not> in_range n s" "end_frame s < n"
  using assms by (auto simp: seg_ok_def in_range_def)

lemma seg_ok_new:
  assumes "\<forall>d\<in>set done. fst d < n"
  shows "seg_ok (done @ [(n, f)]) (new_segment vid k n f)"
proof -
  have "filter (\<lambda>ff. in_range (fst ff) (new_segment vid k n f)) done = []"
    using assms by (auto simp: filter_empty_conv in_range_def new_segment_def)
  then show ?thesis
    by (simp add: seg_ok_def in_range_def new_segment_def)
qed

lemma in_range_extend:
  assumes "m \<le> end_frame cs" "end_frame cs \<le> n"
  shows "in_range m (extend_segment cs n) = in_range m cs"
  using assms by (auto simp: in_range_def extend_segment_def)

lemma seg_ok_extend:
  assumes "seg_ok done cs" "end_frame cs = fst (last done)" "fst (last done) < n"
    "\<forall>d\<in>set done. fst d \<le> fst (last done)"
  shows "seg_ok (done @ [(n, f)]) (extend_segment cs n)"
proof -
  have "filter (\<lambda>ff. in_range (fst ff) (extend_segment cs n)) done
      = filter (\<lambda>ff. in_range (fst ff) cs) done"
    using assms(2-4) by (intro filter_cong refl in_range_extend) auto
  moreover have "in_range n (extend_segment cs n)"
    using assms(1-3) by (simp add: in_range_def extend_segment_def seg_ok_def)
  ultimately show ?thesis
    using assms(1-3) by (simp add: seg_ok_def extend_segment_def)
qed

lemma covered_append: "covered (xs @ ys) ff = (covered xs ff \<or> covered ys ff)"
  by (auto simp: covered_def list_ex_iff)

lemma covered_single: "covered [s] ff = in_range (fst ff) s"
  by (simp add: covered_def)

lemma pass_inv_step:
  assumes inv: "pass_inv load bt done st"
    and asc: "successively (\<lambda>a b. fst a < fst b) (done @ [ff])"
    and body: "loop_body load vid dt bt st ff = Inr st'"
  shows "pass_inv load bt (done @ [ff]) st'"
proof -
  obtain n f where ff: "ff = (n, f)" by (cases ff)
  define segs where "segs = append_current st"
  note A = ascending_snoc(1) [OF asc [unfolded ff]]
  note B = ascending_snoc(2) [OF asc [unfolded ff]]
  from inv have link: "link_ok load bt done st"
    and ok: "list_all (seg_ok done) segs"
    and srt: "sorted_wrt (\<lambda>a b. end_frame a < start_frame b) segs"
    and cov: "list_all (\<lambda>d. covered segs d = (\<not> frame_blank load bt d)) done"
    by (simp_all add: pass_inv_def segs_def)
  have empty: "segs = []" if "done = []"
    using link that by (simp add: link_ok_def segs_def)
  have lastlt: "fst (last done) < n" if "done \<noteq> []"
    using A that by simp
  have old: "seg_ok (done @ [(n, f)]) s \<and> \<not> in_range n s \<and> end_frame s < n"
    if "s \<in> set segs" for s
  proof -
    from that empty have ne: "done \<noteq> []" by auto
    from ok that have "seg_ok done s" by (simp add: list_all_iff)
    from seg_ok_snoc_outside [OF this ne lastlt [OF ne]] show ?thesis by simp
  qed
  have old_ok: "list_all (seg_ok (done @ [(n, f)])) segs"
    using old by (simp add: list_all_iff)
  have fresh: "\<not> covered segs (n, f)"
    using old by (auto simp: covered_def list_ex_iff)
  from body [unfolded ff] show ?thesis
  proof (cases rule: loop_body_cases)
    case (blank img)
    have ac: "append_current st' = segs"
      using blank(3) by (simp add: append_current_simps segs_def)
    have "link_ok load bt (done @ [ff]) st'"
      using blank by (simp add: link_ok_def ff frame_blank_def)
    moreover have "list_all (\<lambda>d. covered segs d = (\<not> frame_blank load bt d)) (done @ [ff])"
      using cov fresh blank(1,2) by (simp add: ff frame_blank_def)
    ultimately show ?thesis
      using old_ok srt by (simp add: pass_inv_def ac ff)
  next
    case (new img)
    define ns where "ns = new_segment vid (length (append_current st)) n f"
    have ac: "append_current st' = segs @ [ns]"
      using new(4) by (simp add: append_current_simps segs_def ns_def)
    have ns: "start_frame ns = n" "end_frame ns = n"
      by (simp_all add: ns_def new_segment_def)
    have "link_ok load bt (done @ [ff]) st'"
      using new ns by (simp add: link_ok_def ff frame_blank_def ns_def [symmetric])
    moreover have "list_all (seg_ok (done @ [ff])) (segs @ [ns])"
      using old_ok seg_ok_new [OF A] by (simp add: ff ns_def)
    moreover have "sorted_wrt (\<lambda>a b. end_frame a < start_frame b) (segs @ [ns])"
      using srt old ns by (simp add: sorted_wrt_append)
    moreover have "list_all (\<lambda>d. covered (segs @ [ns]) d = (\<not> frame_blank load bt d)) (done @ [ff])"
    proof -
      have "covered (segs @ [ns]) d = covered segs d" if "d \<in> set done" for d
        using A that ns by (auto simp: covered_append covered_single in_range_def)
      then have "list_all (\<lambda>d. covered (segs @ [ns]) d = (\<not> frame_blank load bt d)) done"
        using cov by (simp add: list_all_iff)
      moreover have "covered (segs @ [ns]) ff"
        using ns by (simp add: covered_append covered_single in_range_def ff)
      ultimately show ?thesis
        using new(1,2) by (simp add: ff frame_blank_def)
    qed
    ultimately show ?thesis
      by (simp add: pass_inv_def ac)
  next
    case (extend img cs)
    define cs' where "cs' = extend_segment cs n"
    have segs: "segs = segments st @ [cs]"
      using extend(4) by (simp add: segs_def append_current_Some)
    with empty have ne: "done \<noteq> []" by auto
    from link ne extend(4) have e: "end_frame cs = fst (last done)"
      by (simp add: link_ok_def)
    have ac: "append_current st' = segments st @ [cs']"
      using extend(5) by (simp add: append_current_simps cs'_def)
    have cs': "start_frame cs' = start_frame cs" "end_frame cs' = n"
      by (simp_all add: cs'_def extend_segment_def)
    have okcs: "seg_ok done cs"
      using ok segs by simp
    have "link_ok load bt (done @ [ff]) st'"
      using extend cs' by (simp add: link_ok_def ff frame_blank_def cs'_def [symmetric])
    moreover have "list_all (seg_ok (done @ [ff])) (segments st @ [cs'])"
      using old_ok seg_ok_extend [OF okcs e lastlt [OF ne] B [OF ne]]
      by (simp add: ff segs cs'_def)
    moreover have "sorted_wrt (\<lambda>a b. end_frame a < start_frame b) (segments st @ [cs'])"
      using srt cs' by (simp add: sorted_wrt_append segs)
    moreover have "list_all (\<lambda>d. covered (segments st @ [cs']) d = (\<not> frame_blank load bt d))
                     (done @ [ff])"
    proof -
      have "in_range (fst d) cs' = in_range (fst d) cs" if "d \<in> set done" for d
        unfolding cs'_def using B [OF ne] that e lastlt [OF ne]
        by (intro in_range_extend) auto
      then have "covered (segments st @ [cs']) d = covered segs d" if "d \<in> set done" for d
        using that by (simp add: covered_append covered_single segs)
      then have "list_all (\<lambda>d. covered (segments st @ [cs']) d = (\<not> frame_blank load bt d)) done"
        using cov by (simp add: list_all_iff)
      moreover have "in_range n cs'"
        using okcs cs' e lastlt [OF ne] by (simp add: in_range_def seg_ok_def)
      then have "covered (segments st @ [cs']) ff"
        by (simp add: covered_append covered_single ff)
      ultimately show ?thesis
        using extend(1,2) by (simp add: ff frame_blank_def)
    qed
    ultimately show ?thesis
      by (simp add: pass_inv_def ac)
  qed
qed

lemma pass_inv_initial: "pass_inv load bt [] initial_state"
  by (simp add: pass_inv_def link_ok_def initial_state_def append_current_def)

lemma pass_inv_loop:
  assumes "frame_loop load vid dt bt initial_state fs = Inr st'" "ascending fs"
  shows "pass_inv load bt fs st'"
proof -
  have "successively (\<lambda>a b. fst a < fst b) ([] @ fs)"
    using assms(2) by (simp add: ascending_def successively_if_sorted_wrt)
  from frame_loop_invariant [where I = "pass_inv load bt" and ?done = "[]", OF assms(1) pass_inv_initial this]
    pass_inv_step
  show ?thesis by fastforce
qed

subsection \<open>The forward pass on ascending frame numbers\<close>

lemma raw_segmentsE:
  assumes "raw_segments load vid dt bt fs = Inr raw"
  obtains st where "frame_loop load vid dt bt initial_state fs = Inr st" "raw = append_current st"
  using assms by (auto simp: raw_segments_def split: sum.splits)





lemma raw_time_order:
  assumes "raw_segments load vid dt bt frame_files = Inr raw"
    and "ascending frame_files"
  shows "sorted_wrt (\<lambda>a b. end_time a < start_time b) raw"
    and "sorted_wrt (\<lambda>a b. start_time a < start_time b) raw"
proof -
  from assms(1) obtain st where
    run: "frame_loop load vid dt bt initial_state frame_files = Inr st" and
    raw: "raw = append_current st"
    by (rule raw_segmentsE)
  from pass_inv_loop [OF run assms(2)]
  have srt: "sorted_wrt (\<lambda>a b. end_frame a < start_frame b) raw"
    and ok: "list_all (seg_ok frame_files) raw"
    by (simp_all add: pass_inv_def raw)
  from times_inv_loop [OF run times_inv_initial]
  have tm: "list_all (\<lambda>s. start_time s = start_frame s - 1 \<and> end_time s = end_frame s - 1) raw"
    by (simp add: times_inv_def raw)
  show "sorted_wrt (\<lambda>a b. end_time a < start_time b) raw"
    using srt tm by (auto simp: list_all_iff elim!: sorted_wrt_mono_rel [rotated])
  show "sorted_wrt (\<lambda>a b. start_time a < start_time b) raw"
    using srt tm ok by (auto simp: list_all_iff seg_ok_def elim!: sorted_wrt_mono_rel [rotated])
qed

lemma segment_frame_filesE:
  assumes "segment_frame_files load vid dt bt md fs = Inr out"
  obtains raw where "raw_segments load vid dt bt fs = Inr raw" "out = filter_segments md raw"
    "fs \<noteq> []"
  using assms by (auto simp: segment_frame_files_def split: sum.splits if_splits)

text \<open>
  Claim C6. The segments never overlap in time (each ends before the next starts) and
  their start times are strictly increasing, in the raw list and in the filtered list.
\<close>

theorem segments_strictly_ordered:
  assumes "segment_frame_files load vid dt bt md frame_files = Inr out"
    and "ascending frame_files"
  shows "\<exists>raw. raw_segments load vid dt bt frame_files = Inr raw \<and> out = filter_segments md raw
           \<and> sorted_wrt (\<lambda>a b. end_time a < start_time b) raw
           \<and> sorted_wrt (\<lambda>a b. start_time a < start_time b) raw
           \<and> sorted_wrt (\<lambda>a b. end_time a < start_time b) out
           \<and> sorted_wrt (\<lambda>a b. start_time a < start_time b) out"
proof -
  from assms(1) obtain raw where
    raw: "raw_segments load vid dt bt frame_files = Inr raw" and out: "out = filter_segments md raw"
    by (rule segment_frame_filesE)
  note o = raw_time_order [OF raw assms(2)]
  from o have "sorted_wrt (\<lambda>a b. end_time a < start_time b) out"
    "sorted_wrt (\<lambda>a b. start_time a < start_time b) out"
    by (simp_all add: out filter_segments_def sorted_wrt_filter)
  with raw out o show ?thesis by blast
qed

theorem segments_strictly_ordered_witness:
  "ascending scenario_files
   \<and> raw_segments scenario_load (str ''v'') 15 30 scenario_files = Inr [scenario_first, scenario_second]
   \<and> segment_frame_files scenario_load (str ''v'') 15 30 1 scenario_files
       = Inr [scenario_first, scenario_second]
   \<and> sorted_wrt (\<lambda>a b. end_time a < start_time b) [scenario_first, scenario_second]
   \<and> sorted_wrt (\<lambda>a b. start_time a < start_time b) [scenario_first, scenario_second]
   \<and> end_time scenario_first = 4 \<and> start_time scenario_second = 6"
proof -
  have o: "segment_frame_files scenario_load (str ''v'') 15 30 1 scenario_files
       = Inr [scenario_first, scenario_second]"
    by (simp add: scenario_out filter_segments_def scenario_first_def scenario_second_def)
  from segments_strictly_ordered [OF o scenario_ascending]
  have "sorted_wrt (\<lambda>a b. end_time a < start_time b) [scenario_first, scenario_second]
      \<and> sorted_wrt (\<lambda>a b. start_time a < start_time b) [scenario_first, scenario_second]"
    by (simp add: scenario_raw)
  then show ?thesis
    using o scenario_raw scenario_ascending
    by (simp add: scenario_first_def scenario_second_def)
qed

lemma raw_ids:
  assumes "raw_segments load vid dt bt frame_files = Inr raw"
  shows "map segment_id raw = map int [1..<Suc (length raw)]"
proof -
  from assms obtain st where
    run: "frame_loop load vid dt bt initial_state frame_files = Inr st" and
    raw: "raw = append_current st"
    by (rule raw_segmentsE)
  from ids_inv_loop [OF run ids_inv_initial] show ?thesis
    by (simp add: ids_inv_def raw)
qed

text \<open>
  Claim C3. Segment ids are 1-based and sequential in emission order: the segment at
  position \<open>i\<close> (from 0) of the raw list carries id \<open>i + 1\<close>, the number of segments
  emitted before it plus one. In the returned list the ids are strictly increasing in
  list order, and so are the start times when the frame numbers are ascending.
\<close>

theorem segment_ids_sequential:
  assumes "segment_frame_files load vid dt bt md frame_files = Inr out"
  shows "\<exists>raw. raw_segments load vid dt bt frame_files = Inr raw \<and> out = filter_segments md raw
           \<and> (\<forall>i<length raw. segment_id (raw ! i) = int i + 1)
           \<and> sorted_wrt (\<lambda>a b. segment_id a < segment_id b) out
           \<and> (ascending frame_files \<longrightarrow> sorted_wrt (\<lambda>a b. start_time a < start_time b) out)"
proof -
  from assms(1) obtain raw where
    raw: "raw_segments load vid dt bt frame_files = Inr raw" and out: "out = filter_segments md raw"
    by (rule segment_frame_filesE)
  note ids = raw_ids [OF raw]
  have nth: "segment_id (raw ! i) = int i + 1" if "i < length raw" for i
  proof -
    from that have "segment_id (raw ! i) = map segment_id raw ! i" by simp
    also have "\<dots> = map int [1..<Suc (length raw)] ! i" by (simp only: ids)
    also have "\<dots> = int i + 1" using that by (simp del: upt_Suc)
    finally show ?thesis .
  qed
  have "sorted_wrt (<) (map segment_id raw)"
    by (simp only: ids) (simp add: sorted_wrt_map sorted_wrt_upt del: upt_Suc)
  then have "sorted_wrt (\<lambda>a b. segment_id a < segment_id b) raw"
    by (simp add: sorted_wrt_map)
  then have ido: "sorted_wrt (\<lambda>a b. segment_id a < segment_id b) out"
    by (simp add: out filter_segments_def sorted_wrt_filter)
  have "sorted_wrt (\<lambda>a b. start_time a < start_time b) out" if "ascending frame_files"
    using raw_time_order(2) [OF raw that]
    by (simp add: out filter_segments_def sorted_wrt_filter)
  with raw out nth ido show ?thesis by blast
qed

theorem segment_ids_sequential_witness:
  "ascending scenario_files
   \<and> raw_segments scenario_load (str ''v'') 15 30 scenario_files = Inr [scenario_first, scenario_second]
   \<and> segment_frame_files scenario_load (str ''v'') 15 30 2 scenario_files = Inr [scenario_first]
   \<and> segment_frame_files scenario_load (str ''v'') 15 30 1 scenario_files
       = Inr [scenario_first, scenario_second]
   \<and> segment_id ([scenario_first, scenario_second] ! 0) = 1
   \<and> segment_id ([scenario_first, scenario_second] ! 1) = 2
   \<and> sorted_wrt (\<lambda>a b. segment_id a < segment_id b) [scenario_first, scenario_second]
   \<and> sorted_wrt (\<lambda>a b. start_time a < start_time b) [scenario_first, scenario_second]"
proof -
  have o1: "segment_frame_files scenario_load (str ''v'') 15 30 1 scenario_files
       = Inr [scenario_first, scenario_second]"
    by (simp add: scenario_out filter_segments_def scenario_first_def scenario_second_def)
  have o2: "segment_frame_files scenario_load (str ''v'') 15 30 2 scenario_files = Inr [scenario_first]"
    by (simp add: scenario_out filter_segments_def scenario_first_def scenario_second_def)
  from segment_ids_sequential [OF o1] scenario_ascending
  have "(\<forall>i<length [scenario_first, scenario_second].
           segment_id ([scenario_first, scenario_second] ! i) = int i + 1)
      \<and> sorted_wrt (\<lambda>a b. segment_id a < segment_id b) [scenario_first, scenario_second]
      \<and> sorted_wrt (\<lambda>a b. start_time a < start_time b) [scenario_first, scenario_second]"
    by (simp add: scenario_raw)
  then show ?thesis
    using o1 o2 scenario_raw scenario_ascending
    by (simp add: scenario_first_def scenario_second_def)
qed

subsection \<open>A blank frame forces a boundary\<close>







lemma not_same_after_blank:
  assumes "prev = None \<or> (\<exists>p. prev = Some p \<and> is_blank_frame p bt)"
  shows "is_same_subtitle dt bt prev img = Inr False"
  using assms by (auto simp: is_same_subtitle_def)



subsection \<open>The open segment exists when it is extended\<close>

lemma open_inv_step:
  assumes "loop_body load vid dt bt st ff = Inr st'"
  shows "open_inv bt st'"
proof -
  obtain n f where ff: "ff = (n, f)" by (cases ff)
  from assms [unfolded ff] show ?thesis
    by (cases rule: loop_body_cases) (simp_all add: open_inv_def)
qed

text \<open>The subscript of line 150 never meets \<^verbatim>\<open>None\<close>: a frame is compared only
  with a non-blank previous frame, after which a segment is open.\<close>

lemma is_same_subtitle_no_type_error:
  "is_same_subtitle dt bt prev img \<noteq> Inl NoneSubscriptTypeError"
  by (auto simp: is_same_subtitle_def calculate_frame_difference_def
      split: option.splits sum.splits if_splits)

lemma loop_body_no_type_error:
  assumes "open_inv bt st"
  shows "loop_body load vid dt bt st ff \<noteq> Inl NoneSubscriptTypeError"
proof -
  obtain n f where ff: "ff = (n, f)" by (cases ff)
  show ?thesis
  proof (cases "current_segment st")
    case None
    with assms have "prev_img st = None \<or> (\<exists>p. prev_img st = Some p \<and> is_blank_frame p bt)"
      by (auto simp: open_inv_def split: option.splits)
    from not_same_after_blank [OF this] show ?thesis
      by (auto simp: loop_body_def ff Let_def split: option.splits sum.splits)
  next
    case (Some cs)
    then show ?thesis
      using is_same_subtitle_no_type_error
      by (auto simp: loop_body_def ff Let_def split: option.splits sum.splits)
  qed
qed

lemma frame_loop_no_type_error:
  assumes "open_inv bt st"
  shows "frame_loop load vid dt bt st fs \<noteq> Inl NoneSubscriptTypeError"
  using assms
proof (induction fs arbitrary: st)
  case Nil
  then show ?case by simp
next
  case (Cons ff fs)
  show ?case
  proof (cases "loop_body load vid dt bt st ff")
    case (Inl e)
    with loop_body_no_type_error [OF Cons.prems, of load vid dt ff] show ?thesis by simp
  next
    case (Inr st1)
    from Cons.IH [OF open_inv_step [OF Inr]] Inr show ?thesis by simp
  qed
qed

subsection \<open>Time span and frame count\<close>

lemma span_inv_step:
  assumes inv: "span_inv done st"
    and asc: "successively (\<lambda>a b. fst a \<le> fst b) (done @ [ff])"
    and body: "loop_body load vid dt bt st ff = Inr st'"
  shows "span_inv (done @ [ff]) st'"
proof -
  obtain n f where ff: "ff = (n, f)" by (cases ff)
  from asc have le: "fst (last done) \<le> n" if "done \<noteq> []"
    using that by (simp add: successively_append_iff ff)
  from inv le have old:
    "list_all (\<lambda>s. start_frame s \<le> end_frame s \<and> end_frame s \<le> n) (append_current st)"
    by (auto simp: span_inv_def list_all_iff)
  from body [unfolded ff] show ?thesis
  proof (cases rule: loop_body_cases)
    case (blank img)
    with old show ?thesis
      by (simp add: span_inv_def append_current_simps ff)
  next
    case (new img)
    with old show ?thesis
      by (simp add: span_inv_def append_current_simps ff new_segment_def)
  next
    case (extend img cs)
    with old show ?thesis
      by (simp add: span_inv_def append_current_simps append_current_Some ff extend_segment_def)
  qed
qed

lemma span_inv_loop:
  assumes "frame_loop load vid dt bt initial_state fs = Inr st'" "sorted (map fst fs)"
  shows "span_inv fs st'"
proof -
  have i: "span_inv [] initial_state"
    by (simp add: span_inv_def initial_state_def append_current_def)
  from assms(2) have "sorted_wrt (\<lambda>a b. fst a \<le> fst b) fs"
    by (simp add: sorted_wrt_map)
  then have "successively (\<lambda>a b. fst a \<le> fst b) ([] @ fs)"
    by (simp add: successively_if_sorted_wrt)
  from frame_loop_invariant [where I = span_inv and ?done = "[]", OF assms(1) i this]
    span_inv_step
  show ?thesis by fastforce
qed

lemma contig_inv_step:
  assumes inv: "contig_inv done st"
    and asc: "successively (\<lambda>a b. fst b = fst a + 1) (done @ [ff])"
    and body: "loop_body load vid dt bt st ff = Inr st'"
  shows "contig_inv (done @ [ff]) st'"
proof -
  obtain n f where ff: "ff = (n, f)" by (cases ff)
  from asc have nx: "n = fst (last done) + 1" if "done \<noteq> []"
    using that by (simp add: successively_append_iff ff)
  from inv have old:
    "list_all (\<lambda>s. frame_count s = end_frame s - start_frame s + 1) (append_current st)"
    by (simp add: contig_inv_def)
  from body [unfolded ff] show ?thesis
  proof (cases rule: loop_body_cases)
    case (blank img)
    with old show ?thesis
      by (simp add: contig_inv_def append_current_simps)
  next
    case (new img)
    with old show ?thesis
      by (simp add: contig_inv_def append_current_simps new_segment_def ff)
  next
    case (extend img cs)
    from inv extend(4) have "done \<noteq> []" "end_frame cs = fst (last done)"
      by (simp_all add: contig_inv_def)
    with nx have "n = end_frame cs + 1" by simp
    with extend old show ?thesis
      by (simp add: contig_inv_def append_current_simps append_current_Some extend_segment_def ff)
  qed
qed

lemma contig_inv_loop:
  assumes "frame_loop load vid dt bt initial_state fs = Inr st'"
    "successively (\<lambda>a b. fst b = fst a + 1) fs"
  shows "contig_inv fs st'"
proof -
  have i: "contig_inv [] initial_state"
    by (simp add: contig_inv_def initial_state_def append_current_def)
  from assms(2) have "successively (\<lambda>a b. fst b = fst a + 1) ([] @ fs)"
    by simp
  from frame_loop_invariant [where I = contig_inv and ?done = "[]", OF assms(1) i this]
    contig_inv_step
  show ?thesis by fastforce
qed

lemma sorted_find_frames: "sorted (map fst (find_frames todecimal listing vid))"
proof -
  have "sorted (find_frames todecimal listing vid)"
    by (simp add: find_frames_def)
  then have "sorted_wrt (\<lambda>a b. fst a \<le> fst b) (find_frames todecimal listing vid)"
    by (rule sorted_wrt_mono_rel [rotated]) (auto simp: less_eq_prod_def)
  then show ?thesis by (simp add: sorted_wrt_map)
qed

lemma gap_raw: "raw_segments scenario_load (str ''v'') 15 30 gap_files = Inr [gap_segment]"
  by (simp add: run_simps gap_files_def scenario_load_def str_def gap_segment_def)

text \<open>
  Claim C8. Frame numbers sorted as the loader sorts them: every emitted segment has
  \<open>start_time \<le> end_time\<close>. When the frame numbers are consecutive,
  \<open>frame_count = end_frame - start_frame + 1\<close>. When they are only ascending,
  \<open>frame_count\<close> is the number of frames of the sequence in the segment's range, and
  there are runs where it differs from the time span.
\<close>

theorem segment_span_and_count:
  assumes "raw_segments load vid dt bt frame_files = Inr raw"
    and "sorted (map fst frame_files)"
  shows "list_all (\<lambda>s. start_time s \<le> end_time s) raw
       \<and> (successively (\<lambda>a b. fst b = fst a + 1) frame_files \<longrightarrow>
            list_all (\<lambda>s. frame_count s = end_frame s - start_frame s + 1) raw)
       \<and> (ascending frame_files \<longrightarrow>
            list_all (\<lambda>s. frame_count s =
                         int (length (filter (\<lambda>ff. in_range (fst ff) s) frame_files))) raw)
       \<and> (\<exists>load' fs' s'. ascending fs' \<and> raw_segments load' vid 15 30 fs' = Inr [s']
             \<and> frame_count s' \<noteq> end_time s' - start_time s' + 1)"
proof (intro conjI impI)
  from assms(1) obtain st where
    run: "frame_loop load vid dt bt initial_state frame_files = Inr st" and
    raw: "raw = append_current st"
    by (rule raw_segmentsE)
  from times_inv_loop [OF run times_inv_initial]
  have tm: "list_all (\<lambda>s. start_time s = start_frame s - 1 \<and> end_time s = end_frame s - 1) raw"
    by (simp add: times_inv_def raw)
  from span_inv_loop [OF run assms(2)] tm
  show "list_all (\<lambda>s. start_time s \<le> end_time s) raw"
    by (auto simp: span_inv_def raw list_all_iff)
  show "list_all (\<lambda>s. frame_count s = end_frame s - start_frame s + 1) raw"
    if "successively (\<lambda>a b. fst b = fst a + 1) frame_files"
    using contig_inv_loop [OF run that] by (simp add: contig_inv_def raw)
  show "list_all (\<lambda>s. frame_count s =
                   int (length (filter (\<lambda>ff. in_range (fst ff) s) frame_files))) raw"
    if "ascending frame_files"
    using pass_inv_loop [OF run that] by (auto simp: pass_inv_def raw seg_ok_def list_all_iff)
  have "ascending gap_files"
    by (simp add: ascending_def gap_files_def)
  moreover have "raw_segments (\<lambda>f. Some img_text_a) vid 15 30 gap_files
      = Inr [gap_segment\<lparr>video_id := vid\<rparr>]"
    by (simp add: run_simps gap_files_def gap_segment_def)
  moreover have "frame_count (gap_segment\<lparr>video_id := vid\<rparr>)
      \<noteq> end_time (gap_segment\<lparr>video_id := vid\<rparr>) - start_time (gap_segment\<lparr>video_id := vid\<rparr>) + 1"
    by (simp add: gap_segment_def)
  ultimately show "\<exists>load' fs' s'. ascending fs' \<and> raw_segments load' vid 15 30 fs' = Inr [s']
             \<and> frame_count s' \<noteq> end_time s' - start_time s' + 1"
    by blast
qed

theorem segment_span_and_count_witness:
  "find_frames todecimal_sample [str ''v_0003.jpg'', str ''v_0001.jpg''] (str ''v'') = gap_files
   \<and> sorted (map fst gap_files) \<and> ascending gap_files
   \<and> \<not> successively (\<lambda>a b. fst b = fst a + 1) gap_files
   \<and> raw_segments scenario_load (str ''v'') 15 30 gap_files = Inr [gap_segment]
   \<and> list_all (\<lambda>s. start_time s \<le> end_time s) [gap_segment]
   \<and> frame_count gap_segment = 2
   \<and> int (length (filter (\<lambda>ff. in_range (fst ff) gap_segment) gap_files)) = 2
   \<and> end_frame gap_segment - start_frame gap_segment + 1 = 3"
proof -
  have s: "sorted (map fst gap_files)" by (simp add: gap_files_def)
  have a: "ascending gap_files" by (simp add: ascending_def gap_files_def)
  have f: "find_frames todecimal_sample [str ''v_0003.jpg'', str ''v_0001.jpg''] (str ''v'') = gap_files"
    by (simp add: loader_simps gap_files_def)
  from segment_span_and_count [OF gap_raw s] a
  have "list_all (\<lambda>s. start_time s \<le> end_time s) [gap_segment]"
    "frame_count gap_segment = int (length (filter (\<lambda>ff. in_range (fst ff) gap_segment) gap_files))"
    by simp_all
  moreover have "frame_count gap_segment = 2" "end_frame gap_segment - start_frame gap_segment + 1 = 3"
    by (simp_all add: gap_segment_def)
  moreover have "\<not> successively (\<lambda>a b. fst b = fst a + 1) gap_files"
    by (simp add: gap_files_def)
  ultimately show ?thesis using s a f gap_raw by simp
qed

subsection \<open>The duration filter\<close>

lemma fixtures_diff_bc:
  "calculate_frame_difference img_text_b img_text_c = Inr (Some 195)"
  by (simp add: calculate_frame_difference_def np_mean_def img_text_b_def img_text_c_def)

lemma short_raw:
  "raw_segments short_load (str ''v'') 15 30 short_files = Inr [short_first, short_second]"
  by (simp add: run_simps fixtures_diff_bc short_files_def short_load_def str_def short_first_def
      short_second_def)

lemma short_find: "find_frames todecimal_sample [str ''v_0011.jpg'', str ''v_0009.jpg'', str ''v_0010.jpg'', str ''w_0001.jpg''] (str ''v'') = short_files"
  by (simp add: loader_simps short_files_def)

lemma filter_segments_spec: "filter_segments m segs = drop_short_spec m segs"
  by (induction segs) (auto simp: filter_segments_def)

text \<open>
  Claim C7. The result of \<open>segment_frames\<close> is the raw list of the completed pass with
  exactly the segments of duration below \<open>min_segment_duration\<close> removed: the kept
  segments are unchanged elements of the raw list in their order, nothing is merged, and
  with a minimum of 2 a segment with start and end time 10 is not in the result.
\<close>

theorem duration_filter:
  assumes "raw_segments load vid dt bt (find_frames todecimal listing vid) = Inr raw"
    and "find_frames todecimal listing vid \<noteq> []"
  shows "segment_frames todecimal listing load vid dt bt md = Inr (drop_short_spec md raw)
       \<and> subseq (drop_short_spec md raw) raw
       \<and> (\<forall>s. s \<in> set (drop_short_spec md raw) \<longleftrightarrow>
              s \<in> set raw \<and> \<not> end_time s - start_time s + 1 < md)
       \<and> (\<forall>s. start_time s = 10 \<and> end_time s = 10 \<longrightarrow> s \<notin> set (drop_short_spec 2 raw))"
proof -
  have "segment_frames todecimal listing load vid dt bt md = Inr (filter_segments md raw)"
    using assms by (simp add: segment_frames_def segment_frame_files_def)
  moreover have "subseq (filter_segments md raw) raw"
    by (simp add: filter_segments_def)
  moreover have "s \<in> set (filter_segments m raw) \<longleftrightarrow>
      s \<in> set raw \<and> \<not> end_time s - start_time s + 1 < m" for s m
    by (auto simp: filter_segments_def)
  ultimately show ?thesis
    by (simp add: filter_segments_spec)
qed

theorem duration_filter_witness:
  "find_frames todecimal_sample [str ''v_0011.jpg'', str ''v_0009.jpg'', str ''v_0010.jpg'', str ''w_0001.jpg''] (str ''v'') = short_files
   \<and> short_files \<noteq> []
   \<and> raw_segments short_load (str ''v'') 15 30 short_files = Inr [short_first, short_second]
   \<and> start_time short_second = 10 \<and> end_time short_second = 10
   \<and> segment_frames todecimal_sample [str ''v_0011.jpg'', str ''v_0009.jpg'', str ''v_0010.jpg'', str ''w_0001.jpg'']
        short_load (str ''v'') 15 30 2 = Inr [short_first]
   \<and> segment_frames todecimal_sample [str ''v_0011.jpg'', str ''v_0009.jpg'', str ''v_0010.jpg'', str ''w_0001.jpg'']
        short_load (str ''v'') 15 30 1 = Inr [short_first, short_second]"
proof -
  let ?L = "[str ''v_0011.jpg'', str ''v_0009.jpg'', str ''v_0010.jpg'', str ''w_0001.jpg'']"
  have ne: "find_frames todecimal_sample ?L (str ''v'') \<noteq> []"
    by (simp add: short_find short_files_def)
  have r: "raw_segments short_load (str ''v'') 15 30 (find_frames todecimal_sample ?L (str ''v'')) = Inr [short_first, short_second]"
    by (simp only: short_find short_raw)
  from duration_filter [OF r ne, of 2] duration_filter [OF r ne, of 1]
  show ?thesis
    by (simp add: short_find short_raw) (simp add: short_first_def short_second_def short_files_def)
qed

subsection \<open>Threshold monotonicity\<close>

lemma float_lt_mono: "float_lt x t1 \<Longrightarrow> t1 \<le> t2 \<Longrightarrow> float_lt x t2"
  by (auto simp: float_lt_def split: option.splits)

lemma is_blank_frame_mono: "is_blank_frame img b1 \<Longrightarrow> b1 \<le> b2 \<Longrightarrow> is_blank_frame img b2"
  unfolding is_blank_frame_def by (rule float_lt_mono)

lemma is_same_subtitle_mono:
  assumes "is_same_subtitle t1 bt prev img = Inr b" "t1 \<le> t2"
  shows "\<exists>b'. is_same_subtitle t2 bt prev img = Inr b' \<and> (b \<longrightarrow> b')"
  using assms float_lt_mono [OF _ assms(2)]
  by (auto simp: is_same_subtitle_def split: option.splits sum.splits if_splits)

lemma is_same_subtitle_TrueD:
  assumes "is_same_subtitle t bt prev img = Inr True"
  shows "\<exists>p. prev = Some p \<and> \<not> is_blank_frame p bt"
  using assms by (auto simp: is_same_subtitle_def split: option.splits sum.splits if_splits)

lemma loop_body_blank:
  assumes "load f = Some img" "is_blank_frame img bt"
  shows "loop_body load vid dt bt st (n, f) =
           Inr \<lparr>segments = append_current st, current_segment = None, prev_img = Some img\<rparr>"
  using assms by (simp add: loop_body_def)

lemma loop_body_new:
  assumes "load f = Some img" "\<not> is_blank_frame img bt"
    "is_same_subtitle dt bt (prev_img st) img = Inr False"
  shows "loop_body load vid dt bt st (n, f) =
           Inr \<lparr>segments = append_current st,
                current_segment = Some (new_segment vid (length (append_current st)) n f),
                prev_img = Some img\<rparr>"
  using assms by (simp add: loop_body_def new_segment_def Let_def)

lemma loop_body_extend:
  assumes "load f = Some img" "\<not> is_blank_frame img bt"
    "is_same_subtitle dt bt (prev_img st) img = Inr True" "current_segment st = Some cs"
  shows "loop_body load vid dt bt st (n, f) =
           Inr \<lparr>segments = segments st, current_segment = Some (extend_segment cs n),
                prev_img = Some img\<rparr>"
  using assms by (simp add: loop_body_def extend_segment_def Let_def)

lemma lockstep_step:
  assumes le: "t1 \<le> t2"
    and rel: "lockstep st1 st2" and inv: "open_inv bt st2"
    and body: "loop_body load vid t1 bt st1 ff = Inr st1'"
  shows "\<exists>st2'. loop_body load vid t2 bt st2 ff = Inr st2' \<and> lockstep st1' st2' \<and> open_inv bt st2'"
proof -
  obtain n f where ff: "ff = (n, f)" by (cases ff)
  from rel have prev: "prev_img st1 = prev_img st2"
    and cur: "(current_segment st1 = None) = (current_segment st2 = None)"
    and len: "length (append_current st2) \<le> length (append_current st1)"
    by (simp_all add: lockstep_def)
  from body [unfolded ff] show ?thesis
  proof (cases rule: loop_body_cases)
    case (blank img)
    from loop_body_blank [where load = load and f = f and vid = vid and dt = t2 and st = st2 and n = n,
        OF blank(1,2)] blank(2,3) len show ?thesis
      by (simp add: ff lockstep_def open_inv_def append_current_simps)
  next
    case (new img)
    from is_same_subtitle_mono [OF new(3) le] obtain b' where
      s2: "is_same_subtitle t2 bt (prev_img st2) img = Inr b'"
      by (auto simp: prev)
    show ?thesis
    proof (cases b')
      case False
      with s2 have s2f: "is_same_subtitle t2 bt (prev_img st2) img = Inr False"
        by simp
      from loop_body_new [where load = load and f = f and vid = vid and n = n,
          OF new(1,2) s2f] new(4) len show ?thesis
        by (simp add: ff lockstep_def open_inv_def append_current_simps)
    next
      case True
      with s2 have s2t: "is_same_subtitle t2 bt (prev_img st2) img = Inr True"
        by simp
      from is_same_subtitle_TrueD [OF s2t] inv
      obtain cs where cs: "current_segment st2 = Some cs"
        by (auto simp: open_inv_def)
      from loop_body_extend [where load = load and f = f and vid = vid and n = n,
          OF new(1,2) s2t cs] new(4) len show ?thesis
        by (simp add: ff lockstep_def open_inv_def append_current_simps append_current_Some [OF cs])
    qed
  next
    case (extend img cs)
    from is_same_subtitle_mono [OF extend(3) le]
    have s2: "is_same_subtitle t2 bt (prev_img st2) img = Inr True"
      by (auto simp: prev)
    from cur extend(4) obtain cs2 where cs2: "current_segment st2 = Some cs2"
      by auto
    from loop_body_extend [where load = load and f = f and vid = vid and n = n,
        OF extend(1,2) s2 cs2] extend(4,5) len show ?thesis
      by (simp add: ff lockstep_def open_inv_def append_current_simps
          append_current_Some [OF cs2] append_current_Some [OF extend(4)])
  qed
qed

lemma lockstep_loop:
  assumes "t1 \<le> t2"
    and "lockstep st1 st2" and "open_inv bt st2"
    and "frame_loop load vid t1 bt st1 fs = Inr st1'"
  shows "\<exists>st2'. frame_loop load vid t2 bt st2 fs = Inr st2' \<and> lockstep st1' st2'"
  using assms(2-4)
proof (induction fs arbitrary: st1 st2)
  case Nil
  then show ?case by simp
next
  case (Cons ff fs)
  from Cons.prems(3) obtain s1 where
    b: "loop_body load vid t1 bt st1 ff = Inr s1" and
    r: "frame_loop load vid t1 bt s1 fs = Inr st1'"
    by (auto split: sum.splits)
  from lockstep_step [OF assms(1) Cons.prems(1,2) b] obtain s2 where
    b2: "loop_body load vid t2 bt st2 ff = Inr s2" and l: "lockstep s1 s2" and i: "open_inv bt s2"
    by blast
  from Cons.IH [OF l i r] b2 show ?case by simp
qed

lemma raw_segments_mono:
  assumes "t1 \<le> t2" "raw_segments load vid t1 bt fs = Inr raw1"
  shows "\<exists>raw2. raw_segments load vid t2 bt fs = Inr raw2 \<and> length raw2 \<le> length raw1"
proof -
  from assms(2) obtain st1 where
    run: "frame_loop load vid t1 bt initial_state fs = Inr st1" and
    raw: "raw1 = append_current st1"
    by (rule raw_segmentsE)
  have "lockstep initial_state initial_state" "open_inv bt initial_state"
    by (simp_all add: lockstep_def open_inv_def initial_state_def)
  from lockstep_loop [OF assms(1) this run] show ?thesis
    by (auto simp: raw_segments_def raw lockstep_def)
qed

lemma filter_segments_all:
  assumes "raw_segments load vid dt bt fs = Inr raw" "sorted (map fst fs)" "md \<le> 1"
  shows "filter_segments md raw = raw"
proof -
  from assms(1) obtain st where
    run: "frame_loop load vid dt bt initial_state fs = Inr st" and
    raw: "raw = append_current st"
    by (rule raw_segmentsE)
  from times_inv_loop [OF run times_inv_initial] span_inv_loop [OF run assms(2)]
  have "\<forall>s\<in>set raw. start_time s \<le> end_time s"
    by (auto simp: span_inv_def times_inv_def raw list_all_iff)
  with assms(3) show ?thesis
    by (auto simp: filter_segments_def filter_id_conv)
qed

text \<open>
  Claim C1, as amended. For difference thresholds \<open>t1 \<le> t2\<close> and the same frames, a
  pass that completes with \<open>t1\<close> completes with \<open>t2\<close> and emits no more segments,
  counted before the duration filter; with a minimum duration of at most 1 (the default)
  the filter removes nothing, so the returned lists are the raw ones. For blank
  thresholds \<open>b1 \<le> b2\<close>, at least as many frames are classified blank with \<open>b2\<close>
  as with \<open>b1\<close>.
\<close>

theorem threshold_monotone:
  "(t1 \<le> t2 \<and> raw_segments load vid t1 bt frame_files = Inr raw1 \<longrightarrow>
      (\<exists>raw2. raw_segments load vid t2 bt frame_files = Inr raw2 \<and> length raw2 \<le> length raw1
         \<and> (md \<le> 1 \<and> sorted (map fst frame_files) \<and> frame_files \<noteq> [] \<longrightarrow>
              segment_frame_files load vid t1 bt md frame_files = Inr raw1
            \<and> segment_frame_files load vid t2 bt md frame_files = Inr raw2)))
   \<and> (b1 \<le> b2 \<longrightarrow>
        length (filter (\<lambda>img. is_blank_frame img b1) imgs)
          \<le> length (filter (\<lambda>img. is_blank_frame img b2) imgs))"
proof (intro conjI impI)
  assume a: "t1 \<le> t2 \<and> raw_segments load vid t1 bt frame_files = Inr raw1"
  with raw_segments_mono [of t1 t2 load vid bt frame_files raw1] obtain raw2 where
    r2: "raw_segments load vid t2 bt frame_files = Inr raw2" "length raw2 \<le> length raw1"
    by blast
  have "segment_frame_files load vid t1 bt md frame_files = Inr raw1
      \<and> segment_frame_files load vid t2 bt md frame_files = Inr raw2"
    if h: "md \<le> 1 \<and> sorted (map fst frame_files) \<and> frame_files \<noteq> []"
  proof -
    from h have md: "md \<le> 1" and s: "sorted (map fst frame_files)" and ne: "frame_files \<noteq> []"
      by simp_all
    from a have r1: "raw_segments load vid t1 bt frame_files = Inr raw1" by simp
    from filter_segments_all [OF r1 s md] filter_segments_all [OF r2(1) s md] r1 r2(1) ne
    show ?thesis by (simp add: segment_frame_files_def)
  qed
  with r2 show "\<exists>raw2. raw_segments load vid t2 bt frame_files = Inr raw2
      \<and> length raw2 \<le> length raw1
      \<and> (md \<le> 1 \<and> sorted (map fst frame_files) \<and> frame_files \<noteq> [] \<longrightarrow>
              segment_frame_files load vid t1 bt md frame_files = Inr raw1
            \<and> segment_frame_files load vid t2 bt md frame_files = Inr raw2)"
    by blast
next
  assume b: "b1 \<le> b2"
  have "length (filter (\<lambda>img. is_blank_frame img b1) imgs)
      = length (filter (\<lambda>img. is_blank_frame img b1) (filter (\<lambda>img. is_blank_frame img b2) imgs))"
    using is_blank_frame_mono [OF _ b] by (simp add: conj_commute cong: conj_cong)
  also have "\<dots> \<le> length (filter (\<lambda>img. is_blank_frame img b2) imgs)"
    by (rule length_filter_le)
  finally show "length (filter (\<lambda>img. is_blank_frame img b1) imgs)
          \<le> length (filter (\<lambda>img. is_blank_frame img b2) imgs)" .
qed

theorem threshold_monotone_witness:
  "(3 :: real) \<le> 15
   \<and> raw_segments scenario_load (str ''v'') 3 30 mono_files = Inr [mono_split_first, mono_split_second]
   \<and> raw_segments scenario_load (str ''v'') 15 30 mono_files = Inr [mono_merged]
   \<and> length [mono_merged] \<le> length [mono_split_first, mono_split_second]
   \<and> segment_frame_files scenario_load (str ''v'') 3 30 1 mono_files
       = Inr [mono_split_first, mono_split_second]
   \<and> segment_frame_files scenario_load (str ''v'') 15 30 1 mono_files = Inr [mono_merged]
   \<and> (30 :: real) \<le> 120
   \<and> length (filter (\<lambda>img. is_blank_frame img 30) [img_text_a, img_blank, img_text_b]) = 1
   \<and> length (filter (\<lambda>img. is_blank_frame img 120) [img_text_a, img_blank, img_text_b]) = 3"
proof -
  have r1: "raw_segments scenario_load (str ''v'') 3 30 mono_files
      = Inr [mono_split_first, mono_split_second]"
    by (simp add: run_simps mono_files_def scenario_load_def str_def mono_split_first_def
        mono_split_second_def)
  have r2: "raw_segments scenario_load (str ''v'') 15 30 mono_files = Inr [mono_merged]"
    by (simp add: run_simps mono_files_def scenario_load_def str_def mono_merged_def)
  have s: "sorted (map fst mono_files)" "mono_files \<noteq> []"
    by (simp_all add: mono_files_def)
  from threshold_monotone [where ?t1.0 = 3 and ?t2.0 = 15 and load = scenario_load and vid = "(str ''v'')"
      and bt = 30 and frame_files = mono_files and ?raw1.0 = "[mono_split_first, mono_split_second]"
      and md = 1 and ?b1.0 = 30 and ?b2.0 = 120 and imgs = "[img_text_a, img_blank, img_text_b]"]
    r1 r2 s
  have "segment_frame_files scenario_load (str ''v'') 3 30 1 mono_files
       = Inr [mono_split_first, mono_split_second]
     \<and> segment_frame_files scenario_load (str ''v'') 15 30 1 mono_files = Inr [mono_merged]
     \<and> length (filter (\<lambda>img. is_blank_frame img 30) [img_text_a, img_blank, img_text_b])
        \<le> length (filter (\<lambda>img. is_blank_frame img 120) [img_text_a, img_blank, img_text_b])"
    by simp
  then show ?thesis
    using r1 r2 by (simp add: fixtures_blank fixtures_blank_120)
qed

lemma mono_find: "find_frames todecimal_sample mono_listing (str ''v'') = mono_files"
  by (simp add: loader_simps mono_listing_def mono_files_def)

text \<open>
  Counterexample to claim C1 as it was stated, for the list that \<open>segment_frames\<close>
  returns. With a minimum duration of 2 the returned count grows with the threshold: two
  frames that differ by 5 are two one-second segments at threshold 3, both filtered out,
  and one two-second segment at threshold 15, which is kept.
\<close>

theorem threshold_monotone_counterexample:
  "(3 :: real) \<le> 15
   \<and> segment_frames todecimal_sample mono_listing scenario_load (str ''v'') 3 30 2 = Inr []
   \<and> segment_frames todecimal_sample mono_listing scenario_load (str ''v'') 15 30 2
       = Inr [mono_merged]
   \<and> \<not> length [mono_merged] \<le> length ([] :: segment list)"
proof -
  have "segment_frame_files scenario_load (str ''v'') 3 30 2 mono_files = Inr []"
    by (simp add: segment_frame_files_def run_simps filter_segments_def scenario_load_def
        str_def mono_files_def)
  moreover have "segment_frame_files scenario_load (str ''v'') 15 30 2 mono_files
      = Inr [mono_merged]"
    by (simp add: segment_frame_files_def run_simps filter_segments_def scenario_load_def
        str_def mono_files_def mono_merged_def)
  ultimately show ?thesis
    by (simp add: segment_frames_def mono_find)
qed

subsection \<open>The blank classifier\<close>

lemma length3E:
  assumes "length xs = 3"
  obtains a b c where "xs = [a, b, c]"
  using assms by (auto simp: numeral_3_eq_3 length_Suc_conv)

lemma sum_list_take_drop:
  assumes "m + c \<le> length xs"
  shows "sum_list (take c (drop m xs)) = (\<Sum>k<c. xs ! (m + k) :: real)"
proof -
  have "sum_list (take c (drop m xs)) = (\<Sum>k = 0..<length (take c (drop m xs)). take c (drop m xs) ! k)"
    by (rule sum_list_sum_nth)
  also have "\<dots> = (\<Sum>k = 0..<c. take c (drop m xs) ! k)"
    using assms by simp
  also have "\<dots> = (\<Sum>k = 0..<c. xs ! (m + k))"
    using assms by (intro sum.cong refl) simp
  finally show ?thesis by (simp add: atLeast0LessThan)
qed

lemma gray_luminance:
  assumes "length (data img) = prod_list (shape img)" "0 < prod_list (shape img)"
  shows "gray img = Some (luminance_spec img)" "luminance_spec img \<noteq> []"
proof -
  show "gray img = Some (luminance_spec img)"
  proof (cases "length (shape img) = 3")
    case True
    then obtain h w c where s: "shape img = [h, w, c]"
      by (rule length3E)
    with assms have c: "0 < c" and len: "length (data img) = h * w * c"
      by simp_all
    have "sum_list (take c (drop (p * c) (data img))) = (\<Sum>k<c. data img ! (p * c + k))"
      if "p < h * w" for p
    proof -
      from that have "Suc p \<le> h * w" by simp
      then have "Suc p * c \<le> h * w * c" by (rule mult_le_mono1)
      then show ?thesis
        by (intro sum_list_take_drop) (simp add: len)
    qed
    then show ?thesis
      using c by (simp add: gray_def np_mean_axis2_def luminance_spec_def s)
  next
    case False
    then show ?thesis
      by (auto simp: gray_def luminance_spec_def split: list.splits)
  qed
  show "luminance_spec img \<noteq> []"
  proof (cases "length (shape img) = 3")
    case True
    then obtain h w c where s: "shape img = [h, w, c]"
      by (rule length3E)
    with assms(2) show ?thesis
      by (simp add: luminance_spec_def)
  next
    case False
    from assms have "data img \<noteq> []" by auto
    with False show ?thesis
      by (auto simp: luminance_spec_def split: list.splits)
  qed
qed

lemma sum_sq_dev:
  "(\<Sum>x\<leftarrow>xs. (x - m) ^ 2) = (\<Sum>x\<leftarrow>xs. x ^ 2) - 2 * m * sum_list xs + real (length xs) * m ^ 2"
  for m :: real
  by (induction xs) (simp_all add: power2_eq_square algebra_simps)

lemma variance_alt_aux:
  fixes S Q n :: real
  assumes "n \<noteq> 0"
  shows "(Q - 2 * (S / n) * S + n * (S / n) ^ 2) / n = Q / n - (S / n) ^ 2"
  using assms by (simp add: field_simps power2_eq_square)

lemma variance_alt:
  assumes "xs \<noteq> []"
  shows "variance xs = (\<Sum>x\<leftarrow>xs. x ^ 2) / real (length xs) - (sum_list xs / real (length xs)) ^ 2"
proof -
  from assms have n: "real (length xs) \<noteq> 0" by simp
  show ?thesis
    unfolding variance_def sum_sq_dev by (rule variance_alt_aux [OF n])
qed

lemma np_std_spec:
  assumes "xs \<noteq> []"
  shows "np_std (Some xs) = Some (std_dev_spec xs)"
proof -
  have "np_std (Some xs) = Some (sqrt (variance xs))"
    using assms by (simp add: np_std_def np_mean_def variance_def)
  then show ?thesis
    by (simp only: variance_alt [OF assms] std_dev_spec_def)
qed

text \<open>
  The classifier in exact arithmetic. For an array whose element count is the product of
  its shape and is not zero, the model answers blank exactly when the standard deviation
  of the luminance (the per-pixel channel mean of a 3-dimensional array, the raw values
  otherwise) is strictly below the threshold; an empty array has no standard deviation
  (NaN) and is never blank. numpy computes both measures in 64-bit floating point, so
  its value can differ from the exact one in the last place: at a threshold that close
  to the standard deviation this statement does not decide what the program answers.
\<close>

lemma blank_frame_exact:
  assumes "length (data img) = prod_list (shape img)"
  shows "(0 < prod_list (shape img) \<longrightarrow>
            is_blank_frame img blank_threshold
              = (std_dev_spec (luminance_spec img) < blank_threshold))
       \<and> (prod_list (shape img) = 0 \<longrightarrow> \<not> is_blank_frame img blank_threshold)
       \<and> default_blank_threshold = 30"
proof (intro conjI impI)
  assume "0 < prod_list (shape img)"
  from gray_luminance [OF assms this] np_std_spec [of "luminance_spec img"]
  show "is_blank_frame img blank_threshold
          = (std_dev_spec (luminance_spec img) < blank_threshold)"
    by (simp add: is_blank_frame_def float_lt_def)
next
  assume z: "prod_list (shape img) = 0"
  with assms have e: "data img = []" by simp
  have "np_std (gray img) = None"
  proof (cases "length (shape img) = 3")
    case True
    then obtain h w c where s: "shape img = [h, w, c]"
      by (rule length3E)
    with z have "c = 0 \<or> h * w = 0" by auto
    then show ?thesis
      by (auto simp: gray_def s np_mean_axis2_def np_std_def np_mean_def)
  next
    case False
    with e show ?thesis
      by (simp add: gray_def np_std_def np_mean_def)
  qed
  then show "\<not> is_blank_frame img blank_threshold"
    by (simp add: is_blank_frame_def float_lt_def)
next
  show "default_blank_threshold = 30"
    by (simp add: default_blank_threshold_def)
qed

end
